theory Spec2Isabelle
  imports Complex_Main
begin

unbundle bit_operations_syntax

section \<open>Shen-Castan edge detection: the notebook's functions as HOL functions\<close>

text \<open>
  The notebook \<^verbatim>\<open>ShenCastan.ipynb\<close> works on two-dimensional numpy arrays of
  floats.  An array is modelled by its shape and its cells; a pixel value is a real
  number, so rounding of IEEE doubles is not part of the model.  Index expressions are
  Python integers: numpy accepts an index \<open>i\<close> on an axis of length \<open>n\<close> when
  \<open>-n \<le> i < n\<close>, reads a negative index from the end, and raises \<^verbatim>\<open>IndexError\<close>
  otherwise.  The module constants (\<^verbatim>\<open>s_factor\<close>, \<^verbatim>\<open>window_size\<close>, \<^verbatim>\<open>outline\<close>,
  the thresholds, \<^verbatim>\<open>do_hysteresis\<close>, \<^verbatim>\<open>thinFactor\<close>) are the fields of a record that
  every function takes as its first argument.
\<close>

subsection \<open>Results, arrays, loops\<close>

datatype error = IndexError | ZeroDivisionError

text \<open>
  A call returns a value, raises, or (only for the recursive traversal, which is given
  a bound on its recursion depth) does not finish within its bound.
\<close>

datatype 'a result = Return 'a | Raise error | OutOfFuel

fun rbind :: "'a result \<Rightarrow> ('a \<Rightarrow> 'b result) \<Rightarrow> 'b result" where
  "rbind (Return x) f = f x"
| "rbind (Raise e) f = Raise e"
| "rbind OutOfFuel f = OutOfFuel"

record ndarray =
  nrows :: nat
  ncols :: nat
  cells :: "nat \<times> nat \<Rightarrow> real"

record config =
  s_factor :: real
  window_size :: int
  outline :: int
  low_thresh :: real
  high_thresh :: real
  do_hysteresis :: bool
  thinFactor :: int

definition zeros_like :: "ndarray \<Rightarrow> ndarray" where
  "zeros_like a = \<lparr>nrows = nrows a, ncols = ncols a, cells = (\<lambda>_. 0)\<rparr>"

definition of_rows :: "real list list \<Rightarrow> ndarray" where
  "of_rows xss = \<lparr>nrows = length xss, ncols = (case xss of [] \<Rightarrow> 0 | xs # _ \<Rightarrow> length xs),
     cells = (\<lambda>(r, c). xss ! r ! c)\<rparr>"

definition to_rows :: "ndarray \<Rightarrow> real list list" where
  "to_rows a = map (\<lambda>r. map (\<lambda>c. cells a (r, c)) [0..<ncols a]) [0..<nrows a]"

definition index_ok :: "nat \<Rightarrow> int \<Rightarrow> bool" where
  "index_ok n i \<longleftrightarrow> - int n \<le> i \<and> i < int n"

definition norm_index :: "nat \<Rightarrow> int \<Rightarrow> nat" where
  "norm_index n i = nat (if i < 0 then i + int n else i)"

definition getitem :: "ndarray \<Rightarrow> int \<Rightarrow> int \<Rightarrow> real result" where
  "getitem a row col =
     (if index_ok (nrows a) row \<and> index_ok (ncols a) col
      then Return (cells a (norm_index (nrows a) row, norm_index (ncols a) col))
      else Raise IndexError)"

definition setitem :: "ndarray \<Rightarrow> int \<Rightarrow> int \<Rightarrow> real \<Rightarrow> ndarray result" where
  "setitem a row col v =
     (if index_ok (nrows a) row \<and> index_ok (ncols a) col
      then Return (a\<lparr>cells := (cells a)((norm_index (nrows a) row, norm_index (ncols a) col) := v)\<rparr>)
      else Raise IndexError)"

text \<open>\<^verbatim>\<open>range (a, b)\<close>, and a \<^verbatim>\<open>for\<close> loop whose body may raise.\<close>

definition py_range :: "int \<Rightarrow> int \<Rightarrow> int list" where
  "py_range a b = [a..b - 1]"

fun for_loop :: "'i list \<Rightarrow> ('i \<Rightarrow> 's \<Rightarrow> 's result) \<Rightarrow> 's \<Rightarrow> 's result" where
  "for_loop [] body s = Return s"
| "for_loop (i # is) body s = rbind (body i s) (for_loop is body)"

text \<open>\<^verbatim>\<open>isEdge\<close>: the pixel lies in the margin of width \<^verbatim>\<open>outline\<close>.\<close>

definition isEdge :: "config \<Rightarrow> int \<Rightarrow> int \<Rightarrow> int \<Rightarrow> int \<Rightarrow> bool" where
  "isEdge cfg row col rows columns \<longleftrightarrow>
     row < outline cfg \<or> row \<ge> rows - outline cfg \<or> col < outline cfg \<or> col \<ge> columns - outline cfg"

subsection \<open>Step 1: the smoothing filter\<close>

text \<open>
  \<^verbatim>\<open>range (a, b, -1)\<close>.  Each loop of \<^verbatim>\<open>getISEF\<close> is a function of the arrays it
  writes; the arrays it only reads are parameters.  The loops are in the order of the
  source, and \<^verbatim>\<open>getISEF\<close> runs them one after the other.
\<close>

definition py_range_down :: "int \<Rightarrow> int \<Rightarrow> int list" where
  "py_range_down a b = rev [b + 1..a]"

definition isef_boundary_rows ::
  "real \<Rightarrow> real \<Rightarrow> ndarray \<Rightarrow> int \<Rightarrow> int \<Rightarrow> ndarray \<times> ndarray \<Rightarrow> (ndarray \<times> ndarray) result" where
  "isef_boundary_rows b1 b2 img rows columns =
     for_loop (py_range 0 columns) (\<lambda>col (casual, anti_casual).
       rbind (getitem img 0 col) (\<lambda>x.
       rbind (setitem casual 0 col (b1 * x)) (\<lambda>casual.
       rbind (getitem img (rows - 1) col) (\<lambda>y.
       rbind (setitem anti_casual (rows - 1) col (b2 * y)) (\<lambda>anti_casual.
       Return (casual, anti_casual))))))"

definition isef_causal_rows ::
  "real \<Rightarrow> real \<Rightarrow> ndarray \<Rightarrow> int \<Rightarrow> int \<Rightarrow> ndarray \<Rightarrow> ndarray result" where
  "isef_causal_rows b1 s img rows columns =
     for_loop (py_range 1 rows) (\<lambda>row.
       for_loop (py_range 0 columns) (\<lambda>col casual.
         rbind (getitem img row col) (\<lambda>x.
         rbind (getitem casual (row - 1) col) (\<lambda>p.
         setitem casual row col (b1 * x + s * p)))))"

definition isef_anticausal_rows ::
  "real \<Rightarrow> real \<Rightarrow> ndarray \<Rightarrow> int \<Rightarrow> int \<Rightarrow> ndarray \<Rightarrow> ndarray result" where
  "isef_anticausal_rows b2 s img rows columns =
     for_loop (py_range_down (rows - 2) (- 1)) (\<lambda>row.
       for_loop (py_range 0 columns) (\<lambda>col anti_casual.
         rbind (getitem img row col) (\<lambda>x.
         rbind (getitem anti_casual (row + 1) col) (\<lambda>p.
         setitem anti_casual row col (b2 * x + s * p)))))"

definition isef_last_row :: "ndarray \<Rightarrow> int \<Rightarrow> int \<Rightarrow> ndarray \<Rightarrow> ndarray result" where
  "isef_last_row casual rows columns =
     for_loop (py_range 0 (columns - 1)) (\<lambda>col first_pass.
       rbind (getitem casual (rows - 1) col) (\<lambda>x.
       setitem first_pass (rows - 1) col x))"

definition isef_sum_rows ::
  "ndarray \<Rightarrow> ndarray \<Rightarrow> int \<Rightarrow> int \<Rightarrow> ndarray \<Rightarrow> ndarray result" where
  "isef_sum_rows casual anti_casual rows columns =
     for_loop (py_range 0 (rows - 2)) (\<lambda>row.
       for_loop (py_range 0 (columns - 1)) (\<lambda>col first_pass.
         rbind (getitem casual row col) (\<lambda>x.
         rbind (getitem anti_casual (row + 1) col) (\<lambda>y.
         setitem first_pass row col (x + y)))))"

definition isef_boundary_cols ::
  "real \<Rightarrow> real \<Rightarrow> ndarray \<Rightarrow> int \<Rightarrow> int \<Rightarrow> ndarray \<times> ndarray \<Rightarrow> (ndarray \<times> ndarray) result" where
  "isef_boundary_cols b1 b2 first_pass rows columns =
     for_loop (py_range 0 rows) (\<lambda>row (casual, anti_casual).
       rbind (getitem first_pass row 0) (\<lambda>x.
       rbind (setitem casual row 0 (b1 * x)) (\<lambda>casual.
       rbind (getitem first_pass row (columns - 1)) (\<lambda>y.
       rbind (setitem anti_casual row (columns - 1) (b2 * y)) (\<lambda>anti_casual.
       Return (casual, anti_casual))))))"

definition isef_causal_cols ::
  "real \<Rightarrow> real \<Rightarrow> ndarray \<Rightarrow> int \<Rightarrow> int \<Rightarrow> ndarray \<Rightarrow> ndarray result" where
  "isef_causal_cols b1 s first_pass rows columns =
     for_loop (py_range 1 columns) (\<lambda>col.
       for_loop (py_range 0 rows) (\<lambda>row casual.
         rbind (getitem first_pass row col) (\<lambda>x.
         rbind (getitem casual row (col - 1)) (\<lambda>p.
         setitem casual row col (b1 * x + s * p)))))"

definition isef_anticausal_cols ::
  "real \<Rightarrow> real \<Rightarrow> ndarray \<Rightarrow> int \<Rightarrow> int \<Rightarrow> ndarray \<Rightarrow> ndarray result" where
  "isef_anticausal_cols b2 s first_pass rows columns =
     for_loop (py_range_down (columns - 2) (- 1)) (\<lambda>col.
       for_loop (py_range 0 rows) (\<lambda>row anti_casual.
         rbind (getitem first_pass row col) (\<lambda>x.
         rbind (getitem anti_casual row (col + 1)) (\<lambda>p.
         setitem anti_casual row col (b2 * x + s * p)))))"

definition isef_last_col :: "ndarray \<Rightarrow> int \<Rightarrow> int \<Rightarrow> ndarray \<Rightarrow> ndarray result" where
  "isef_last_col casual rows columns =
     for_loop (py_range 0 rows) (\<lambda>row result.
       rbind (getitem casual row (columns - 1)) (\<lambda>x.
       setitem result row (columns - 1) x))"

definition isef_sum_cols ::
  "ndarray \<Rightarrow> ndarray \<Rightarrow> int \<Rightarrow> int \<Rightarrow> ndarray \<Rightarrow> ndarray result" where
  "isef_sum_cols casual anti_casual rows columns =
     for_loop (py_range 0 rows) (\<lambda>row.
       for_loop (py_range 0 (columns - 1)) (\<lambda>col result.
         rbind (getitem casual row col) (\<lambda>x.
         rbind (getitem anti_casual row (col + 1)) (\<lambda>y.
         setitem result row col (x + y)))))"

text \<open>The division of two floats: \<^verbatim>\<open>b1 = (1.0 - s_factor) / (1.0 + s_factor)\<close> raises for a zero divisor.\<close>

definition float_div :: "real \<Rightarrow> real \<Rightarrow> real result" where
  "float_div x y = (if y = 0 then Raise ZeroDivisionError else Return (x / y))"

definition getISEF :: "config \<Rightarrow> ndarray \<Rightarrow> ndarray result" where
  "getISEF cfg img =
     (let casual = zeros_like img; anti_casual = zeros_like img; first_pass = zeros_like img;
          rows = int (nrows img); columns = int (ncols img)
      in
      rbind (float_div (1 - s_factor cfg) (1 + s_factor cfg)) (\<lambda>b1.
      let b2 = s_factor cfg * b1 in
      rbind (isef_boundary_rows b1 b2 img rows columns (casual, anti_casual)) (\<lambda>(casual, anti_casual).
      rbind (isef_causal_rows b1 (s_factor cfg) img rows columns casual) (\<lambda>casual.
      rbind (isef_anticausal_rows b2 (s_factor cfg) img rows columns anti_casual) (\<lambda>anti_casual.
      rbind (isef_last_row casual rows columns first_pass) (\<lambda>first_pass.
      rbind (isef_sum_rows casual anti_casual rows columns first_pass) (\<lambda>first_pass.
      let result = first_pass in
      rbind (isef_boundary_cols b1 b2 first_pass rows columns (casual, anti_casual)) (\<lambda>(casual, anti_casual).
      rbind (isef_causal_cols b1 (s_factor cfg) first_pass rows columns casual) (\<lambda>casual.
      rbind (isef_anticausal_cols b2 (s_factor cfg) first_pass rows columns anti_casual) (\<lambda>anti_casual.
      rbind (isef_last_col casual rows columns result) (\<lambda>result.
      isef_sum_cols casual anti_casual rows columns result)))))))))))"

subsection \<open>Step 2: the binary Laplacian image\<close>

definition getBLI :: "ndarray \<Rightarrow> ndarray \<Rightarrow> ndarray result" where
  "getBLI img imgISEF =
     (let rows = int (nrows img); columns = int (ncols img); result = zeros_like img
      in for_loop (py_range 0 rows) (\<lambda>row.
           for_loop (py_range 0 columns) (\<lambda>col result.
             rbind (getitem imgISEF row col) (\<lambda>a.
             rbind (getitem img row col) (\<lambda>b.
             setitem result row col (if a - b > 0 then 1 else 0))))) result)"

subsection \<open>Step 3: the zero crossings\<close>

text \<open>
  \<^verbatim>\<open>imgBLI[row][col] == 1.0 and imgBLI[row'][col'] == 0.0\<close>: the second cell is read
  only when the first comparison holds.
\<close>

definition bli_transition :: "ndarray \<Rightarrow> int \<Rightarrow> int \<Rightarrow> int \<Rightarrow> int \<Rightarrow> bool result" where
  "bli_transition imgBLI row col row' col' =
     rbind (getitem imgBLI row col) (\<lambda>a.
       if a = 1 then rbind (getitem imgBLI row' col') (\<lambda>b. Return (b = 0)) else Return False)"

definition isef_difference :: "ndarray \<Rightarrow> int \<Rightarrow> int \<Rightarrow> int \<Rightarrow> int \<Rightarrow> real result" where
  "isef_difference imgISEF row col row' col' =
     rbind (getitem imgISEF row col) (\<lambda>x.
       rbind (getitem imgISEF row' col') (\<lambda>y. Return (x - y)))"

definition isEdgeCandidate :: "ndarray \<Rightarrow> ndarray \<Rightarrow> int \<Rightarrow> int \<Rightarrow> bool result" where
  "isEdgeCandidate imgBLI imgISEF row col =
     rbind (bli_transition imgBLI row col (row + 1) col) (\<lambda>t.
     if t then rbind (isef_difference imgISEF (row + 1) col (row - 1) col) (\<lambda>d. Return (d > 0))
     else rbind (bli_transition imgBLI row col row (col + 1)) (\<lambda>t.
     if t then rbind (isef_difference imgISEF row (col + 1) row (col - 1)) (\<lambda>d. Return (d > 0))
     else rbind (bli_transition imgBLI row col (row - 1) col) (\<lambda>t.
     if t then rbind (isef_difference imgISEF (row + 1) col (row - 1) col) (\<lambda>d. Return (d < 0))
     else rbind (bli_transition imgBLI row col row (col - 1)) (\<lambda>t.
     if t then rbind (isef_difference imgISEF row (col + 1) row (col - 1)) (\<lambda>d. Return (d < 0))
     else Return False))))"

text \<open>
  \<^verbatim>\<open>int (x / 2)\<close> for a Python integer \<open>x\<close>: true division, then truncation towards zero.
\<close>

definition int_half :: "int \<Rightarrow> int" where
  "int_half x = (if 0 \<le> x then x div 2 else - ((- x) div 2))"

record window_acc =
  sum_on :: real
  sum_off :: real
  num_on :: int
  num_off :: int

definition window_step :: "ndarray \<Rightarrow> ndarray \<Rightarrow> int \<Rightarrow> int \<Rightarrow> window_acc \<Rightarrow> window_acc result" where
  "window_step imgBLI imgISEF r c acc =
     rbind (getitem imgBLI r c) (\<lambda>b.
       rbind (getitem imgISEF r c) (\<lambda>v.
         Return (if b > 0
                 then acc\<lparr>sum_on := sum_on acc + v, num_on := num_on acc + 1\<rparr>
                 else acc\<lparr>sum_off := sum_off acc + v, num_off := num_off acc + 1\<rparr>)))"

definition window_sums :: "config \<Rightarrow> ndarray \<Rightarrow> ndarray \<Rightarrow> int \<Rightarrow> int \<Rightarrow> window_acc result" where
  "window_sums cfg imgBLI imgISEF row col =
     (let window_start = int_half (- window_size cfg); window_end = int_half (window_size cfg)
      in for_loop (py_range window_start window_end) (\<lambda>i.
           for_loop (py_range window_start window_end) (\<lambda>j.
             window_step imgBLI imgISEF (row + i) (col + j)))
           \<lparr>sum_on = 0, sum_off = 0, num_on = 0, num_off = 0\<rparr>)"

text \<open>The division of a float sum by an integer counter.\<close>

definition py_div :: "real \<Rightarrow> int \<Rightarrow> real result" where
  "py_div x n = (if n = 0 then Raise ZeroDivisionError else Return (x / real_of_int n))"

definition adaptiveGradient :: "config \<Rightarrow> ndarray \<Rightarrow> ndarray \<Rightarrow> int \<Rightarrow> int \<Rightarrow> real result" where
  "adaptiveGradient cfg imgBLI imgISEF row col =
     rbind (window_sums cfg imgBLI imgISEF row col) (\<lambda>acc.
       rbind (if sum_off acc > 0 then py_div (sum_off acc) (num_off acc) else Return 0) (\<lambda>avg_off.
         rbind (if sum_on acc > 0 then py_div (sum_on acc) (num_on acc) else Return 0) (\<lambda>avg_on.
           Return (avg_off - avg_on))))"

definition locateZc :: "config \<Rightarrow> ndarray \<Rightarrow> ndarray \<Rightarrow> ndarray result" where
  "locateZc cfg imgISEF imgBLI =
     (let rows = int (nrows imgISEF); columns = int (ncols imgISEF); result = zeros_like imgISEF
      in for_loop (py_range 0 rows) (\<lambda>row.
           for_loop (py_range 0 columns) (\<lambda>col result.
             if isEdge cfg row col rows columns then Return result
             else rbind (isEdgeCandidate imgBLI imgISEF row col) (\<lambda>candidate.
               if candidate
               then rbind (adaptiveGradient cfg imgBLI imgISEF row col) (\<lambda>g. setitem result row col g)
               else setitem result row col 0))) result)"

subsection \<open>Step 4: the tracer\<close>

text \<open>
  \<^verbatim>\<open>mark_connected\<close> recurses into the eight neighbours, in the order of the list
  \<open>neighbours\<close>, and threads the global array \<^verbatim>\<open>edges\<close> through the calls.  Its first
  argument bounds the depth of the recursion: a call that would go deeper gives
  \<open>OutOfFuel\<close>.  It reads \<^verbatim>\<open>low_thresh\<close> and \<^verbatim>\<open>thinFactor\<close> from the module constants.
\<close>

definition neighbours :: "(int \<times> int) list" where
  "neighbours = [(0, 1), (0, - 1), (1, 1), (1, 0), (1, - 1), (- 1, - 1), (- 1, 0), (- 1, 1)]"

definition visit_neighbours ::
  "(int \<Rightarrow> int \<Rightarrow> int \<Rightarrow> ndarray \<Rightarrow> (ndarray \<times> int) result) \<Rightarrow>
     int \<Rightarrow> int \<Rightarrow> int \<Rightarrow> ndarray \<Rightarrow> (ndarray \<times> int) result" where
  "visit_neighbours visit row col level edges =
     for_loop neighbours (\<lambda>(dr, dc) (edges, notChainEnd).
       rbind (visit (row + dr) (col + dc) (level + 1) edges) (\<lambda>(edges, r).
       Return (edges, notChainEnd OR r))) (edges, 0)"

primrec mark_connected ::
  "nat \<Rightarrow> config \<Rightarrow> ndarray \<Rightarrow> int \<Rightarrow> int \<Rightarrow> int \<Rightarrow> ndarray \<Rightarrow> (ndarray \<times> int) result" where
  "mark_connected 0 cfg img row col level edges = OutOfFuel"
| "mark_connected (Suc depth) cfg img row col level edges =
     rbind (getitem edges row col) (\<lambda>e.
     if e \<noteq> 0 then Return (edges, 0)
     else rbind (getitem img row col) (\<lambda>v.
     if v = 0 then Return (edges, 0)
     else rbind (setitem edges row col (if v > low_thresh cfg then 1 else 255)) (\<lambda>edges.
     rbind (visit_neighbours (mark_connected depth cfg img) row col level edges) (\<lambda>(edges, notChainEnd).
     if notChainEnd \<noteq> 0 \<and> level > 0
     then (if thinFactor cfg > 0
           then (if level mod thinFactor cfg \<noteq> 0
                 then rbind (setitem edges row col 255) (\<lambda>edges. Return (edges, 1))
                 else Return (edges, 1))
           else Return (edges, 1))
     else Return (edges, 1)))))"

text \<open>
  \<^verbatim>\<open>threshold_edges\<close> assigns \<^verbatim>\<open>low_thresh = high_thresh\<close> when hysteresis is off.  The
  function has no \<^verbatim>\<open>global low_thresh\<close> declaration, so the assignment binds a local
  name, \<open>local_low_thresh\<close> below, that nothing reads: \<^verbatim>\<open>mark_connected\<close> is called
  with the module constants as they are.  The first pair of loops starts a traversal at
  every seed, the second resets the provisional marks.
\<close>

definition trace_seeds :: "nat \<Rightarrow> config \<Rightarrow> ndarray \<Rightarrow> int \<Rightarrow> int \<Rightarrow> ndarray \<Rightarrow> ndarray result" where
  "trace_seeds depth cfg img rows columns =
     for_loop (py_range 0 rows) (\<lambda>row.
       for_loop (py_range 0 columns) (\<lambda>col edges.
         if isEdge cfg row col rows columns then Return edges
         else rbind (getitem img row col) (\<lambda>v.
           if v > high_thresh cfg
           then rbind (mark_connected depth cfg img row col 0 edges) (\<lambda>(edges, r). Return edges)
           else Return edges)))"

definition clear_provisional :: "int \<Rightarrow> int \<Rightarrow> ndarray \<Rightarrow> ndarray result" where
  "clear_provisional rows columns =
     for_loop (py_range 0 rows) (\<lambda>row.
       for_loop (py_range 0 columns) (\<lambda>col edges.
         rbind (getitem edges row col) (\<lambda>e.
         if e = 255 then setitem edges row col 0 else Return edges)))"

definition threshold_edges :: "nat \<Rightarrow> config \<Rightarrow> ndarray \<Rightarrow> ndarray result" where
  "threshold_edges depth cfg img =
     (let rows = int (nrows img); columns = int (ncols img);
          result = zeros_like img;
          edges = result;
          local_low_thresh = (if \<not> do_hysteresis cfg then Some (high_thresh cfg) else None)
      in
      rbind (trace_seeds depth cfg img rows columns edges) (\<lambda>edges.
      clear_provisional rows columns edges))"

subsection \<open>Step 5: the driver\<close>

definition normalize_edges :: "ndarray \<Rightarrow> ndarray result" where
  "normalize_edges imgEdges =
     (let rows = int (nrows imgEdges); columns = int (ncols imgEdges)
      in for_loop (py_range 0 rows) (\<lambda>row.
           for_loop (py_range 0 columns) (\<lambda>col imgEdges.
             rbind (getitem imgEdges row col) (\<lambda>e.
             setitem imgEdges row col (if e > 0 then 255 else 0)))) imgEdges)"

definition shenCastan :: "nat \<Rightarrow> config \<Rightarrow> ndarray \<Rightarrow> ndarray result" where
  "shenCastan depth cfg img =
     rbind (getISEF cfg img) (\<lambda>imgISEF.
     rbind (getBLI img imgISEF) (\<lambda>imgBLI.
     rbind (locateZc cfg imgISEF imgBLI) (\<lambda>imgZC.
     rbind (threshold_edges depth cfg imgZC) (\<lambda>imgEdges.
     normalize_edges imgEdges))))"

section \<open>Auxiliary definitions\<close>

subsection \<open>Reading results\<close>

definition returned :: "'a result \<Rightarrow> 'a option" where
  "returned r = (case r of Return x \<Rightarrow> Some x | Raise e \<Rightarrow> None | OutOfFuel \<Rightarrow> None)"

subsection \<open>The window of the adaptive gradient\<close>

text \<open>
  The loop invariant of the window sums: a counter that is still 0 has a sum that is
  still 0.  A window is in bounds when each of its offsets gives a valid row and a valid
  column index.
\<close>

definition counted :: "window_acc \<Rightarrow> bool" where
  "counted acc \<longleftrightarrow> 0 \<le> num_on acc \<and> 0 \<le> num_off acc
     \<and> (num_on acc = 0 \<longrightarrow> sum_on acc = 0) \<and> (num_off acc = 0 \<longrightarrow> sum_off acc = 0)"

definition window_in_bounds :: "config \<Rightarrow> ndarray \<Rightarrow> int \<Rightarrow> int \<Rightarrow> bool" where
  "window_in_bounds cfg a row col \<longleftrightarrow>
     (\<forall>i \<in> {int_half (- window_size cfg)..<int_half (window_size cfg)}.
        index_ok (nrows a) (row + i) \<and> index_ok (ncols a) (col + i))"

subsection \<open>Elementwise loops\<close>

text \<open>What two nested loops over all rows and columns compute when each step writes its own cell.\<close>

definition grid_map :: "nat \<Rightarrow> nat \<Rightarrow> (nat \<Rightarrow> nat \<Rightarrow> real \<Rightarrow> real) \<Rightarrow> ndarray \<Rightarrow> ndarray" where
  "grid_map m n F a = a\<lparr>cells := (\<lambda>(r, c). if r < m \<and> c < n then F r c (cells a (r, c)) else cells a (r, c))\<rparr>"

subsection \<open>Example inputs\<close>

definition example_config :: config where
  "example_config = \<lparr>s_factor = 1 / 2, window_size = 2, outline = 1, low_thresh = 2,
     high_thresh = 2, do_hysteresis = False, thinFactor = 0\<rparr>"

definition example_image :: ndarray where
  "example_image = of_rows [[1, 2, 3], [4, 5, 6], [7, 8, 9]]"

definition example_mask :: ndarray where
  "example_mask = of_rows [[0, 0, 0], [0, 1, 1], [0, 1, 1]]"

subsection \<open>The traversal\<close>

text \<open>
  The cell an index pair denotes, the array after the first mark of a pixel of strength
  \<open>v\<close>, and the statement that each of the eight recursions returns 0 at once.
\<close>

definition own_cell :: "ndarray \<Rightarrow> int \<Rightarrow> int \<Rightarrow> nat \<times> nat" where
  "own_cell a row col = (norm_index (nrows a) row, norm_index (ncols a) col)"

definition first_mark :: "config \<Rightarrow> ndarray \<Rightarrow> int \<Rightarrow> int \<Rightarrow> real \<Rightarrow> ndarray" where
  "first_mark cfg edges row col v =
     edges\<lparr>cells := (cells edges)(own_cell edges row col := (if v > low_thresh cfg then 1 else 255))\<rparr>"

definition all_neighbours_stop ::
  "nat \<Rightarrow> config \<Rightarrow> ndarray \<Rightarrow> int \<Rightarrow> int \<Rightarrow> int \<Rightarrow> ndarray \<Rightarrow> bool" where
  "all_neighbours_stop depth cfg img row col level edges \<longleftrightarrow>
     (\<forall>(dr, dc) \<in> set neighbours.
        mark_connected depth cfg img (row + dr) (col + dc) (level + 1) edges = Return (edges, 0))"

text \<open>
  The trace of a candidate strength grid as the driver returns it, and the number of its
  edge pixels.
\<close>

definition count_edges :: "ndarray \<Rightarrow> nat" where
  "count_edges a = (\<Sum>r < nrows a. \<Sum>c < ncols a. if cells a (r, c) = 255 then 1 else 0)"

definition trace_edges :: "nat \<Rightarrow> config \<Rightarrow> ndarray \<Rightarrow> ndarray result" where
  "trace_edges depth cfg imgZC = rbind (threshold_edges depth cfg imgZC) normalize_edges"

definition returned_rows :: "ndarray result \<Rightarrow> real list list option" where
  "returned_rows r = map_option to_rows (returned r)"

definition traced :: "(ndarray \<times> int) result \<Rightarrow> (real list list \<times> int) option" where
  "traced r = map_option (\<lambda>(e, flag). (to_rows e, flag)) (returned r)"


subsection \<open>The filter as the specification words it\<close>

text \<open>
  On one line of length \<open>n\<close>: \<open>causal[0] = b1 * x[0]\<close>,
  \<open>causal[i] = b1 * x[i] + s * causal[i-1]\<close>; \<open>anticausal[n-1] = b2 * x[n-1]\<close>,
  \<open>anticausal[i] = b2 * x[i] + s * anticausal[i+1]\<close>; the output is
  \<open>causal[i] + anticausal[i+1]\<close> for \<open>i < n - 1\<close> and \<open>causal[n-1]\<close> at the last index.
  The first pass filters every row of the grid, the second every column of the result.
\<close>

fun causal_from :: "real \<Rightarrow> real \<Rightarrow> real \<Rightarrow> real list \<Rightarrow> real list" where
  "causal_from b1 s prev [] = []"
| "causal_from b1 s prev (x # xs) = (b1 * x + s * prev) # causal_from b1 s (b1 * x + s * prev) xs"

fun spec_causal :: "real \<Rightarrow> real \<Rightarrow> real list \<Rightarrow> real list" where
  "spec_causal b1 s [] = []"
| "spec_causal b1 s (x # xs) = (b1 * x) # causal_from b1 s (b1 * x) xs"

fun spec_anticausal :: "real \<Rightarrow> real \<Rightarrow> real list \<Rightarrow> real list" where
  "spec_anticausal b2 s [] = []"
| "spec_anticausal b2 s [x] = [b2 * x]"
| "spec_anticausal b2 s (x # xs) =
     (b2 * x + s * hd (spec_anticausal b2 s xs)) # spec_anticausal b2 s xs"

definition spec_line :: "real \<Rightarrow> real list \<Rightarrow> real list" where
  "spec_line s xs =
     (let b1 = (1 - s) / (1 + s); b2 = s * b1; n = length xs;
          causal = spec_causal b1 s xs; anticausal = spec_anticausal b2 s xs
      in map (\<lambda>i. if i < n - 1 then causal ! i + anticausal ! (i + 1) else causal ! (n - 1)) [0..<n])"

definition spec_isef :: "real \<Rightarrow> real list list \<Rightarrow> real list list" where
  "spec_isef s grid = transpose (map (spec_line s) (transpose (map (spec_line s) grid)))"

subsection \<open>More example inputs\<close>

definition thin_config :: config where
  "thin_config = \<lparr>s_factor = 1 / 2, window_size = 2, outline = 1, low_thresh = 1 / 2,
     high_thresh = 3, do_hysteresis = False, thinFactor = 2\<rparr>"

definition dot_image :: ndarray where
  "dot_image = of_rows [[0, 0, 0], [0, 5, 0], [0, 0, 0]]"

definition chain_image :: ndarray where
  "chain_image = of_rows [[0, 0, 0, 0, 0], [0, 4, 6, 1, 0], [0, 0, 0, 0, 0]]"


definition impulse_image :: ndarray where
  "impulse_image = of_rows [[0, 0, 0], [0, 9, 0], [0, 0, 0]]"

definition weak_image :: ndarray where
  "weak_image = of_rows [[0, 0, 0, 0], [0, 5, 1, 0], [0, 0, 0, 0]]"

definition hysteresis_off_config :: config where
  "hysteresis_off_config = \<lparr>s_factor = 1 / 2, window_size = 2, outline = 1, low_thresh = 0,
     high_thresh = 2, do_hysteresis = False, thinFactor = 0\<rparr>"

subsection \<open>The traversal inside the margin\<close>

text \<open>
  A candidate strength grid as \<^verbatim>\<open>locateZc\<close> produces it has strength 0 on the margin
  (\<open>border_zero\<close>).  Two cells are adjacent when one is among the eight neighbours of the
  other; a set of cells is closed when it contains every adjacent cell of nonzero
  strength of each of its members.  \<open>kept e e'\<close>: the marks of \<open>e\<close> are still in \<open>e'\<close>.
  \<open>settled\<close>: a marked cell lies in \<open>A\<close>, has nonzero strength, has all its adjacent
  cells of nonzero strength marked, and (without thinning) carries its first mark.
\<close>

definition in_grid :: "ndarray \<Rightarrow> nat \<times> nat \<Rightarrow> bool" where
  "in_grid a p \<longleftrightarrow> fst p < nrows a \<and> snd p < ncols a"

definition border_zero :: "config \<Rightarrow> ndarray \<Rightarrow> bool" where
  "border_zero cfg img \<longleftrightarrow>
     (\<forall>r < nrows img. \<forall>c < ncols img.
        isEdge cfg (int r) (int c) (int (nrows img)) (int (ncols img)) \<longrightarrow> cells img (r, c) = 0)"

definition adjacent :: "nat \<times> nat \<Rightarrow> nat \<times> nat \<Rightarrow> bool" where
  "adjacent p q \<longleftrightarrow> (int (fst q) - int (fst p), int (snd q) - int (snd p)) \<in> set neighbours"

definition closed_under :: "ndarray \<Rightarrow> (nat \<times> nat) set \<Rightarrow> bool" where
  "closed_under img A \<longleftrightarrow>
     (\<forall>p \<in> A. \<forall>q. adjacent p q \<and> in_grid img q \<and> cells img q \<noteq> 0 \<longrightarrow> q \<in> A)"

definition kept :: "ndarray \<Rightarrow> ndarray \<Rightarrow> bool" where
  "kept e e' \<longleftrightarrow> nrows e' = nrows e \<and> ncols e' = ncols e
     \<and> (\<forall>p. cells e p \<noteq> 0 \<longrightarrow> cells e' p = cells e p)"

definition settled :: "config \<Rightarrow> ndarray \<Rightarrow> (nat \<times> nat) set \<Rightarrow> ndarray \<Rightarrow> nat \<times> nat \<Rightarrow> bool" where
  "settled cfg img A e p \<longleftrightarrow>
     p \<in> A \<and> in_grid img p \<and> cells img p \<noteq> 0
     \<and> (\<forall>q. adjacent p q \<and> cells img q \<noteq> 0 \<longrightarrow> cells e q \<noteq> 0)
     \<and> (thinFactor cfg \<le> 0 \<longrightarrow> cells e p = (if cells img p > low_thresh cfg then 1 else 255))"

definition fresh_ok :: "config \<Rightarrow> ndarray \<Rightarrow> (nat \<times> nat) set \<Rightarrow> ndarray \<Rightarrow> ndarray \<Rightarrow> bool" where
  "fresh_ok cfg img A e e' \<longleftrightarrow> (\<forall>p. cells e p = 0 \<and> cells e' p \<noteq> 0 \<longrightarrow> settled cfg img A e' p)"

subsection \<open>Seeds, regions and the final passes\<close>

text \<open>
  A seed is a pixel outside the margin whose strength exceeds \<^verbatim>\<open>high_thresh\<close> (and is not
  0, or the traversal stops at once).  The region of a seed is the set of cells reached
  from it through adjacent cells of nonzero strength.  \<open>unprovisional\<close> and \<open>binarize\<close>
  are what the last loops of \<^verbatim>\<open>threshold_edges\<close> and of \<^verbatim>\<open>shenCastan\<close> do to one cell.
\<close>

definition is_seed :: "config \<Rightarrow> ndarray \<Rightarrow> nat \<times> nat \<Rightarrow> bool" where
  "is_seed cfg img p \<longleftrightarrow>
     in_grid img p
     \<and> \<not> isEdge cfg (int (fst p)) (int (snd p)) (int (nrows img)) (int (ncols img))
     \<and> cells img p > high_thresh cfg \<and> cells img p \<noteq> 0"

definition all_settled :: "config \<Rightarrow> ndarray \<Rightarrow> (nat \<times> nat) set \<Rightarrow> ndarray \<Rightarrow> bool" where
  "all_settled cfg img A e \<longleftrightarrow> (\<forall>p. cells e p \<noteq> 0 \<longrightarrow> settled cfg img A e p)"

definition unprovisional :: "nat \<Rightarrow> nat \<Rightarrow> real \<Rightarrow> real" where
  "unprovisional r c old = (if old = 255 then 0 else old)"

definition binarize :: "nat \<Rightarrow> nat \<Rightarrow> real \<Rightarrow> real" where
  "binarize r c old = (if old > 0 then 255 else 0)"

definition candidates :: "ndarray \<Rightarrow> (nat \<times> nat) set" where
  "candidates img = {p. in_grid img p \<and> cells img p \<noteq> 0}"


section \<open>Loop rules\<close>

lemma rbind_Return_iff:
  "rbind m f = Return y \<longleftrightarrow> (\<exists>x. m = Return x \<and> f x = Return y)"
  by (cases m) auto

lemma for_loop_append:
  "for_loop (xs @ ys) body s = rbind (for_loop xs body s) (for_loop ys body)"
  by (induction xs arbitrary: s) (auto, case_tac "body a s", auto)

text \<open>An invariant of a loop that finishes: \<open>P\<close> is indexed by the iterations done.\<close>

lemma for_loop_invariant:
  assumes run: "for_loop xs body s = Return s'"
    and init: "P [] s"
    and step: "\<And>ys x t t'. P ys t \<Longrightarrow> x \<in> set xs \<Longrightarrow> body x t = Return t' \<Longrightarrow> P (ys @ [x]) t'"
  shows "P xs s'"
proof -
  have "for_loop zs body t = Return s' \<Longrightarrow> P ys t \<Longrightarrow> set zs \<subseteq> set xs \<Longrightarrow> P (ys @ zs) s'"
    for ys zs t
  proof (induction zs arbitrary: ys t)
    case Nil
    then show ?case by simp
  next
    case (Cons z zs)
    from Cons.prems(1) obtain t' where b: "body z t = Return t'"
      and r: "for_loop zs body t' = Return s'"
      by (auto simp: rbind_Return_iff)
    have "P (ys @ [z]) t'"
      using step [OF Cons.prems(2) _ b] Cons.prems(3) by simp
    from Cons.IH [OF r this] Cons.prems(3) show ?case by simp
  qed
  from this [of xs s "[]"] run init show ?thesis by simp
qed

text \<open>A loop whose body always returns under the invariant finishes.\<close>

lemma for_loop_total:
  assumes init: "P [] s"
    and step: "\<And>ys x t. P ys t \<Longrightarrow> x \<in> set xs \<Longrightarrow> \<exists>t'. body x t = Return t' \<and> P (ys @ [x]) t'"
  shows "\<exists>s'. for_loop xs body s = Return s' \<and> P xs s'"
proof -
  have "P ys t \<Longrightarrow> set zs \<subseteq> set xs \<Longrightarrow> \<exists>s'. for_loop zs body t = Return s' \<and> P (ys @ zs) s'"
    for ys zs t
  proof (induction zs arbitrary: ys t)
    case Nil
    then show ?case by simp
  next
    case (Cons z zs)
    from step [OF Cons.prems(1), of z] Cons.prems(2)
    obtain t' where b: "body z t = Return t'" and p: "P (ys @ [z]) t'"
      by auto
    from Cons.IH [OF p] Cons.prems(2) b show ?case by simp
  qed
  from this [of "[]" s xs] init show ?thesis by simp
qed

lemma for_loop_Raise:
  "for_loop xs body s = Raise e \<Longrightarrow> \<exists>x \<in> set xs. \<exists>t. body x t = Raise e"
proof (induction xs arbitrary: s)
  case Nil
  then show ?case by simp
next
  case (Cons x xs)
  then show ?case by (cases "body x s") auto
qed

lemma for_loop_OutOfFuel:
  "for_loop xs body s = OutOfFuel \<Longrightarrow> \<exists>x \<in> set xs. \<exists>t. body x t = OutOfFuel"
proof (induction xs arbitrary: s)
  case Nil
  then show ?case by simp
next
  case (Cons x xs)
  then show ?case by (cases "body x s") auto
qed

lemma set_py_range [simp]: "set (py_range a b) = {a..<b}"
  by (auto simp: py_range_def)

section \<open>The adaptive gradient never divides by zero\<close>

lemma window_step_counted:
  "window_step imgBLI imgISEF r c acc = Return acc' \<Longrightarrow> counted acc \<Longrightarrow> counted acc'"
  by (auto simp: window_step_def rbind_Return_iff counted_def split: if_splits)

lemma window_sums_counted:
  assumes "window_sums cfg imgBLI imgISEF row col = Return acc"
  shows "counted acc"
proof -
  let ?ws = "int_half (- window_size cfg)" and ?we = "int_half (window_size cfg)"
  have inner: "counted t'"
    if "for_loop (py_range ?ws ?we) (\<lambda>j. window_step imgBLI imgISEF (row + i) (col + j)) t = Return t'"
      and "counted t" for i t t'
    using that(1)
    by (rule for_loop_invariant [where P = "\<lambda>_. counted"]) (auto simp: that(2) dest: window_step_counted)
  from assms show ?thesis
    unfolding window_sums_def Let_def
    by (rule for_loop_invariant [where P = "\<lambda>_. counted"]) (auto simp: counted_def dest: inner)
qed

lemma window_step_Raise:
  "window_step imgBLI imgISEF r c acc = Raise e \<Longrightarrow> e = IndexError"
  by (auto simp: window_step_def getitem_def split: if_splits)

lemma window_sums_Raise:
  assumes "window_sums cfg imgBLI imgISEF row col = Raise e"
  shows "e = IndexError"
proof -
  from assms obtain i t where
    "for_loop (py_range (int_half (- window_size cfg)) (int_half (window_size cfg)))
       (\<lambda>j. window_step imgBLI imgISEF (row + i) (col + j)) t = Raise e"
    unfolding window_sums_def Let_def by (blast dest: for_loop_Raise)
  then show ?thesis
    by (blast dest: for_loop_Raise window_step_Raise)
qed

lemma window_step_in_bounds:
  assumes "index_ok (nrows imgBLI) r" "index_ok (ncols imgBLI) c"
    "index_ok (nrows imgISEF) r" "index_ok (ncols imgISEF) c"
  shows "\<exists>acc'. window_step imgBLI imgISEF r c acc = Return acc'"
  using assms by (simp add: window_step_def getitem_def)

lemma window_sums_total:
  assumes "window_in_bounds cfg imgBLI row col" "window_in_bounds cfg imgISEF row col"
  shows "\<exists>acc. window_sums cfg imgBLI imgISEF row col = Return acc"
proof -
  let ?ws = "int_half (- window_size cfg)" and ?we = "int_half (window_size cfg)"
  have inner: "\<exists>t'. for_loop (py_range ?ws ?we) (\<lambda>j. window_step imgBLI imgISEF (row + i) (col + j)) t
      = Return t' \<and> True"
    if "i \<in> {?ws..<?we}" for i t
    by (rule for_loop_total [where P = "\<lambda>_ _. True"])
      (use that assms in \<open>auto simp: window_in_bounds_def intro!: window_step_in_bounds\<close>)
  have "\<exists>s'. for_loop (py_range ?ws ?we) (\<lambda>i.
           for_loop (py_range ?ws ?we) (\<lambda>j. window_step imgBLI imgISEF (row + i) (col + j)))
           \<lparr>sum_on = 0, sum_off = 0, num_on = 0, num_off = 0\<rparr> = Return s' \<and> True"
    by (rule for_loop_total [where P = "\<lambda>_ _. True"]) (use inner in auto)
  then show ?thesis by (simp add: window_sums_def Let_def)
qed

text \<open>
  C10.  After the window loops a strictly positive sum has a counter of at least 1, so
  each division that \<^verbatim>\<open>adaptiveGradient\<close> evaluates has a nonzero divisor: the function
  never raises \<^verbatim>\<open>ZeroDivisionError\<close>, and it returns a value whenever every index of
  the window is a valid index of both arrays.
\<close>

theorem adaptiveGradient_no_zero_division:
  "(\<forall>acc. window_sums cfg imgBLI imgISEF row col = Return acc \<longrightarrow>
      (sum_off acc > 0 \<longrightarrow> 1 \<le> num_off acc) \<and> (sum_on acc > 0 \<longrightarrow> 1 \<le> num_on acc))
   \<and> adaptiveGradient cfg imgBLI imgISEF row col \<noteq> Raise ZeroDivisionError
   \<and> (window_in_bounds cfg imgBLI row col \<and> window_in_bounds cfg imgISEF row col \<longrightarrow>
        (\<exists>v. adaptiveGradient cfg imgBLI imgISEF row col = Return v))"
proof (intro conjI allI impI)
  fix acc assume "window_sums cfg imgBLI imgISEF row col = Return acc"
  then have "counted acc" by (rule window_sums_counted)
  then show "sum_off acc > 0 \<Longrightarrow> 1 \<le> num_off acc" and "sum_on acc > 0 \<Longrightarrow> 1 \<le> num_on acc"
    by (auto simp: counted_def)
next
  show "adaptiveGradient cfg imgBLI imgISEF row col \<noteq> Raise ZeroDivisionError"
  proof (cases "window_sums cfg imgBLI imgISEF row col")
    case (Return acc)
    then have "counted acc" by (rule window_sums_counted)
    then show ?thesis
      using Return by (auto simp: adaptiveGradient_def py_div_def counted_def)
  next
    case (Raise e)
    then have "e = IndexError"
      by (rule window_sums_Raise)
    then show ?thesis using Raise by (simp add: adaptiveGradient_def)
  next
    case OutOfFuel
    then show ?thesis by (simp add: adaptiveGradient_def)
  qed
next
  assume "window_in_bounds cfg imgBLI row col \<and> window_in_bounds cfg imgISEF row col"
  then obtain acc where acc: "window_sums cfg imgBLI imgISEF row col = Return acc"
    using window_sums_total by blast
  then have "counted acc" by (rule window_sums_counted)
  then show "\<exists>v. adaptiveGradient cfg imgBLI imgISEF row col = Return v"
    using acc by (auto simp: adaptiveGradient_def py_div_def counted_def)
qed

theorem adaptiveGradient_no_zero_division_witness:
  "window_in_bounds example_config example_mask 1 1
   \<and> window_in_bounds example_config example_image 1 1
   \<and> returned (window_sums example_config example_mask example_image 1 1)
       = Some \<lparr>sum_on = 5, sum_off = 7, num_on = 1, num_off = 3\<rparr>
   \<and> returned (adaptiveGradient example_config example_mask example_image 1 1) = Some (- 8 / 3)
   \<and> adaptiveGradient example_config example_mask example_image 1 1 \<noteq> Raise ZeroDivisionError"
proof -
  have "window_in_bounds example_config example_mask 1 1"
    and "window_in_bounds example_config example_image 1 1"
    and "returned (window_sums example_config example_mask example_image 1 1)
       = Some \<lparr>sum_on = 5, sum_off = 7, num_on = 1, num_off = 3\<rparr>"
    and "returned (adaptiveGradient example_config example_mask example_image 1 1) = Some (- 8 / 3)"
    by code_simp+
  then show ?thesis
    using adaptiveGradient_no_zero_division [of example_config example_mask example_image 1 1]
    by simp
qed

section \<open>Loops over all cells\<close>

lemma py_range_Suc: "py_range 0 (1 + int n) = py_range 0 (int n) @ [int n]"
proof -
  have "[0..int n] = [0..int n - 1] @ [int n]"
    using upto_rec2 [of 0 "int n"] by simp
  then show ?thesis by (simp add: py_range_def)
qed

lemma py_range_0 [simp]: "py_range 0 0 = []"
  by (simp add: py_range_def)

lemma for_upto_invariant:
  assumes "for_loop (py_range 0 (int n)) body s = Return s'"
    and "P 0 s"
    and "\<And>k t t'. k < n \<Longrightarrow> P k t \<Longrightarrow> body (int k) t = Return t' \<Longrightarrow> P (Suc k) t'"
  shows "P n s'"
  using assms
proof (induction n arbitrary: s')
  case 0
  then show ?case by simp
next
  case (Suc n)
  from Suc.prems(1) obtain t where t: "for_loop (py_range 0 (int n)) body s = Return t"
    and b: "body (int n) t = Return s'"
    by (auto simp: py_range_Suc for_loop_append rbind_Return_iff)
  have "P n t"
    using t Suc.prems(2) by (rule Suc.IH) (use Suc.prems(3) in auto)
  then show ?case using b Suc.prems(3) by blast
qed

lemma for_upto_total:
  assumes "P 0 s"
    and "\<And>k t. k < n \<Longrightarrow> P k t \<Longrightarrow> \<exists>t'. body (int k) t = Return t' \<and> P (Suc k) t'"
  shows "\<exists>s'. for_loop (py_range 0 (int n)) body s = Return s' \<and> P n s'"
  using assms
proof (induction n)
  case 0
  then show ?case by simp
next
  case (Suc n)
  have "\<exists>t. for_loop (py_range 0 (int n)) body s = Return t \<and> P n t"
    using Suc.prems(1) by (rule Suc.IH) (use Suc.prems(2) in auto)
  then obtain t where t: "for_loop (py_range 0 (int n)) body s = Return t" and p: "P n t"
    by blast
  from Suc.prems(2) [OF _ p] obtain t' where "body (int n) t = Return t'" "P (Suc n) t'"
    by auto
  then show ?case using t by (auto simp: py_range_Suc for_loop_append)
qed

lemma grid_loop:
  assumes run: "for_loop (py_range 0 (int (nrows a))) (\<lambda>row.
        for_loop (py_range 0 (int (ncols a))) (\<lambda>col. body row col)) a = Return a'"
    and body: "\<And>r c t t'. r < nrows a \<Longrightarrow> c < ncols a \<Longrightarrow> nrows t = nrows a \<Longrightarrow> ncols t = ncols a
        \<Longrightarrow> body (int r) (int c) t = Return t'
        \<Longrightarrow> t' = t\<lparr>cells := (cells t)((r, c) := F r c (cells t (r, c)))\<rparr>"
  shows "a' = grid_map (nrows a) (ncols a) F a"
proof -
  let ?R = "nrows a" and ?C = "ncols a"
  let ?part = "\<lambda>r k. a\<lparr>cells := (\<lambda>(r', c'). if r' < r \<and> c' < ?C \<or> r' = r \<and> c' < k
     then F r' c' (cells a (r', c')) else cells a (r', c'))\<rparr>"
  have inner: "t' = grid_map (Suc r) ?C F a"
    if run': "for_loop (py_range 0 (int ?C)) (\<lambda>col. body (int r) col) t = Return t'"
      and r: "r < ?R" and t: "t = grid_map r ?C F a" for r t t'
  proof -
    have "t' = ?part r ?C"
      using run'
    proof (rule for_upto_invariant [where P = "\<lambda>k t. t = ?part r k"], goal_cases)
      case 1
      then show ?case using t by (simp add: grid_map_def)
    next
      case (2 k u u')
      have "u' = u\<lparr>cells := (cells u)((r, k) := F r k (cells u (r, k)))\<rparr>"
        by (rule body [OF r 2(1) _ _ 2(3)]) (use 2(2) in auto)
      then show ?case using 2(2) r
        by (auto simp: fun_eq_iff less_Suc_eq)
    qed
    then show ?thesis
      by (auto simp: grid_map_def fun_eq_iff less_Suc_eq)
  qed
  show ?thesis
    using run
  proof (rule for_upto_invariant [where P = "\<lambda>k t. t = grid_map k ?C F a"], goal_cases)
    case 1
    then show ?case by (simp add: grid_map_def)
  next
    case (2 k t t')
    then show ?case using inner by blast
  qed
qed

lemma grid_loop_total:
  assumes body: "\<And>r c t. r < nrows a \<Longrightarrow> c < ncols a \<Longrightarrow> nrows t = nrows a \<Longrightarrow> ncols t = ncols a
        \<Longrightarrow> body (int r) (int c) t = Return (t\<lparr>cells := (cells t)((r, c) := F r c (cells t (r, c)))\<rparr>)"
  shows "for_loop (py_range 0 (int (nrows a))) (\<lambda>row.
        for_loop (py_range 0 (int (ncols a))) (\<lambda>col. body row col)) a
      = Return (grid_map (nrows a) (ncols a) F a)"
proof -
  let ?R = "nrows a" and ?C = "ncols a"
  let ?shape = "\<lambda>t. nrows t = ?R \<and> ncols t = ?C"
  have inner: "\<exists>t'. for_loop (py_range 0 (int ?C)) (\<lambda>col. body (int r) col) t = Return t' \<and> ?shape t'"
    if "r < ?R" "?shape t" for r t
    using that(2)
    by (rule for_upto_total [where P = "\<lambda>k. ?shape"]) (use that(1) in \<open>simp add: body\<close>)
  have "\<exists>a'. for_loop (py_range 0 (int ?R)) (\<lambda>row.
        for_loop (py_range 0 (int ?C)) (\<lambda>col. body row col)) a = Return a' \<and> ?shape a'"
    by (rule for_upto_total [where P = "\<lambda>k. ?shape"]) (use inner in auto)
  then obtain a' where run: "for_loop (py_range 0 (int ?R)) (\<lambda>row.
        for_loop (py_range 0 (int ?C)) (\<lambda>col. body row col)) a = Return a'"
    by blast
  then have "a' = grid_map ?R ?C F a"
    by (rule grid_loop) (simp add: body)
  then show ?thesis using run by simp
qed

lemma getitem_nat [simp]:
  "r < nrows a \<Longrightarrow> c < ncols a \<Longrightarrow> getitem a (int r) (int c) = Return (cells a (r, c))"
  by (simp add: getitem_def index_ok_def norm_index_def)

lemma setitem_nat [simp]:
  "r < nrows a \<Longrightarrow> c < ncols a \<Longrightarrow>
     setitem a (int r) (int c) v = Return (a\<lparr>cells := (cells a)((r, c) := v)\<rparr>)"
  by (simp add: setitem_def index_ok_def norm_index_def)

section \<open>The binary Laplacian image\<close>

lemma getBLI_eq:
  assumes "nrows imgISEF = nrows img" "ncols imgISEF = ncols img"
  shows "getBLI img imgISEF = Return \<lparr>nrows = nrows img, ncols = ncols img,
     cells = (\<lambda>(r, c). if r < nrows img \<and> c < ncols img \<and> cells imgISEF (r, c) - cells img (r, c) > 0
        then 1 else 0)\<rparr>"
proof -
  let ?z = "zeros_like img"
  have "for_loop (py_range 0 (int (nrows ?z))) (\<lambda>row.
           for_loop (py_range 0 (int (ncols ?z))) (\<lambda>col result.
             rbind (getitem imgISEF row col) (\<lambda>a.
             rbind (getitem img row col) (\<lambda>b.
             setitem result row col (if a - b > 0 then 1 else 0))))) ?z
     = Return (grid_map (nrows ?z) (ncols ?z)
         (\<lambda>r c old. if cells imgISEF (r, c) - cells img (r, c) > 0 then 1 else 0) ?z)"
    by (rule grid_loop_total) (use assms in \<open>simp add: zeros_like_def\<close>)
  then show ?thesis
    by (auto simp: getBLI_def Let_def zeros_like_def grid_map_def fun_eq_iff)
qed

text \<open>
  C5.  For arrays of the same shape \<^verbatim>\<open>getBLI\<close> returns an array of that shape whose cell
  is 1 where the smoothed value minus the intensity is positive and 0 elsewhere; no other
  value occurs in the result.
\<close>

theorem getBLI_binary:
  assumes "nrows imgISEF = nrows img" "ncols imgISEF = ncols img"
  shows "\<exists>result. getBLI img imgISEF = Return result
     \<and> nrows result = nrows img \<and> ncols result = ncols img
     \<and> (\<forall>r < nrows img. \<forall>c < ncols img.
          cells result (r, c) = (if cells imgISEF (r, c) - cells img (r, c) > 0 then 1 else 0))
     \<and> (\<forall>p. cells result p = 0 \<or> cells result p = 1)"
  using getBLI_eq [OF assms] by auto

theorem getBLI_binary_witness:
  "nrows example_image = nrows example_mask \<and> ncols example_image = ncols example_mask
   \<and> map_option to_rows (returned (getBLI example_mask example_image))
       = Some [[1, 1, 1], [1, 1, 1], [1, 1, 1]]"
  using getBLI_binary [of example_image example_mask]
  by (auto simp: example_image_def example_mask_def of_rows_def to_rows_def returned_def
      upt_rec [of _ "numeral _"])

section \<open>The traversal of one pixel\<close>

lemma getitem_Return_iff:
  "getitem a row col = Return v \<longleftrightarrow>
     index_ok (nrows a) row \<and> index_ok (ncols a) col \<and> cells a (own_cell a row col) = v"
  by (auto simp: getitem_def own_cell_def)

lemma setitem_Return_iff:
  "setitem a row col v = Return a' \<longleftrightarrow>
     index_ok (nrows a) row \<and> index_ok (ncols a) col
     \<and> a' = a\<lparr>cells := (cells a)(own_cell a row col := v)\<rparr>"
  by (auto simp: setitem_def own_cell_def)

lemma mark_connected_Suc_unvisited:
  assumes "getitem edges row col = Return 0"
    and "getitem img row col = Return v" and "v \<noteq> 0"
  shows "mark_connected (Suc depth) cfg img row col level edges =
     rbind (visit_neighbours (mark_connected depth cfg img) row col level
              (first_mark cfg edges row col v)) (\<lambda>(e8, n).
       if n \<noteq> 0 \<and> level > 0 \<and> thinFactor cfg > 0 \<and> level mod thinFactor cfg \<noteq> 0
       then rbind (setitem e8 row col 255) (\<lambda>e. Return (e, 1)) else Return (e8, 1))"
proof -
  have "setitem edges row col (if v > low_thresh cfg then 1 else 255)
      = Return (first_mark cfg edges row col v)"
    using assms(1) by (simp add: setitem_Return_iff getitem_Return_iff first_mark_def)
  moreover have "(\<lambda>(e8 :: ndarray, n :: int).
       if n \<noteq> 0 \<and> level > 0
       then (if thinFactor cfg > 0
           then (if level mod thinFactor cfg \<noteq> 0
                 then rbind (setitem e8 row col 255) (\<lambda>e. Return (e, 1 :: int))
                 else Return (e8, 1))
           else Return (e8, 1))
       else Return (e8, 1))
     = (\<lambda>(e8, n).
       if n \<noteq> 0 \<and> level > 0 \<and> thinFactor cfg > 0 \<and> level mod thinFactor cfg \<noteq> 0
       then rbind (setitem e8 row col 255) (\<lambda>e. Return (e, 1)) else Return (e8, 1))"
    by (auto simp: fun_eq_iff)
  ultimately show ?thesis
    using assms by simp
qed

lemma getitem_cases:
  obtains (Return) v where "getitem a row col = Return v" | (Raise) "getitem a row col = Raise IndexError"
  by (cases "index_ok (nrows a) row \<and> index_ok (ncols a) col") (simp_all add: getitem_def)

lemma mark_connected_flag:
  assumes "mark_connected d cfg img row col level e = Return (e', r)"
  shows "(r = 0 \<or> r = 1) \<and> (r = 0 \<longrightarrow> e' = e)"
proof (cases d)
  case 0
  then show ?thesis using assms by simp
next
  case (Suc d')
  show ?thesis
  proof (cases rule: getitem_cases [of e row col])
    case Raise
    then show ?thesis using assms Suc by simp
  next
    case own: (Return x)
    show ?thesis
    proof (cases "x = 0")
      case False
      then show ?thesis using assms Suc own by simp
    next
      case True
      show ?thesis
      proof (cases rule: getitem_cases [of img row col])
        case Raise
        then show ?thesis using assms Suc own True by simp
      next
        case (Return v)
        show ?thesis
        proof (cases "v = 0")
          case True
          then show ?thesis using assms Suc own \<open>x = 0\<close> Return by simp
        next
          case False
          have "r = 1"
            using assms
            unfolding Suc mark_connected_Suc_unvisited [OF own [unfolded \<open>x = 0\<close>] Return False]
            by (auto simp: rbind_Return_iff split: if_splits)
          then show ?thesis by simp
        qed
      qed
    qed
  qed
qed

lemma visit_neighbours_invariant:
  assumes run: "visit_neighbours visit row col level e = Return (e', n)"
    and init: "I [] e"
    and step: "\<And>ys dr dc t t' r. (dr, dc) \<in> set neighbours \<Longrightarrow> I ys t
        \<Longrightarrow> visit (row + dr) (col + dc) (level + 1) t = Return (t', r) \<Longrightarrow> I (ys @ [(dr, dc)]) t'"
  shows "I neighbours e'"
proof -
  have "(\<lambda>ys (t, acc). I ys t) neighbours (e', n)"
    using run unfolding visit_neighbours_def
  proof (rule for_loop_invariant, goal_cases)
    case 1
    then show ?case using init by simp
  next
    case (2 ys x t t')
    then show ?case
      by (cases x; cases t; cases t') (auto simp: rbind_Return_iff dest: step)
  qed
  then show ?thesis by simp
qed

lemma mark_connected_frame:
  "mark_connected d cfg img row col level e = Return (e', r) \<Longrightarrow>
     nrows e' = nrows e \<and> ncols e' = ncols e \<and> (\<forall>p. cells e p \<noteq> 0 \<longrightarrow> cells e' p = cells e p)"
proof (induction d arbitrary: row col level e e' r)
  case 0
  then show ?case by simp
next
  case (Suc d)
  let ?frame = "\<lambda>a b. nrows b = nrows a \<and> ncols b = ncols a \<and> (\<forall>p. cells a p \<noteq> 0 \<longrightarrow> cells b p = cells a p)"
  show ?case
  proof (cases "r = 0")
    case True
    then show ?thesis using mark_connected_flag [OF Suc.prems] by simp
  next
    case False
    from Suc.prems False obtain v e8 n where
      own: "getitem e row col = Return 0" and v: "getitem img row col = Return v" "v \<noteq> 0"
      and vis: "visit_neighbours (mark_connected d cfg img) row col level (first_mark cfg e row col v)
          = Return (e8, n)"
      and fin: "e' = e8 \<or> e' = e8\<lparr>cells := (cells e8)(own_cell e8 row col := 255)\<rparr>"
      by (auto simp: rbind_Return_iff setitem_Return_iff first_mark_def split: if_splits)
    let ?e1 = "first_mark cfg e row col v"
    have "?frame ?e1 e8"
      using vis
    proof (rule visit_neighbours_invariant [where I = "\<lambda>_. ?frame ?e1"], goal_cases)
      case 1
      then show ?case by simp
    next
      case (2 ys dr dc t t' r)
      from Suc.IH [OF 2(3)] 2(2) show ?case by auto
    qed
    moreover have "?frame e ?e1"
      using own by (auto simp: first_mark_def getitem_Return_iff)
    moreover have "cells e (own_cell e row col) = 0"
      using own by (simp add: getitem_Return_iff)
    ultimately have "?frame e e8" "own_cell e8 row col = own_cell e row col"
      by (auto simp: own_cell_def)
    then show ?thesis
      using fin \<open>cells e (own_cell e row col) = 0\<close> by auto
  qed
qed

lemma neighbour_loop_flag:
  assumes "for_loop ns (\<lambda>(dr, dc) (edges, notChainEnd).
       rbind (mark_connected d cfg img (row + dr) (col + dc) (level + 1) edges) (\<lambda>(edges, r).
       Return (edges, notChainEnd OR r))) (e, acc) = Return (e8, n)"
  shows "n = 0 \<longleftrightarrow> acc = 0 \<and> (\<forall>(dr, dc) \<in> set ns.
        mark_connected d cfg img (row + dr) (col + dc) (level + 1) e = Return (e, 0))"
  using assms
proof (induction ns arbitrary: e acc)
  case Nil
  then show ?case by simp
next
  case (Cons x ns)
  obtain dr dc where x: "x = (dr, dc)" by (cases x)
  from Cons.prems obtain t r where
    call: "mark_connected d cfg img (row + dr) (col + dc) (level + 1) e = Return (t, r)"
    and rest: "for_loop ns (\<lambda>(dr, dc) (edges, notChainEnd).
       rbind (mark_connected d cfg img (row + dr) (col + dc) (level + 1) edges) (\<lambda>(edges, r).
       Return (edges, notChainEnd OR r))) (t, acc OR r) = Return (e8, n)"
    by (auto simp: x rbind_Return_iff)
  note ih = Cons.IH [OF rest]
  show ?case
  proof (cases "r = 0")
    case True
    then have "t = e" using mark_connected_flag [OF call] by simp
    then show ?thesis using ih call True by (simp add: x)
  next
    case False
    then have "acc OR r \<noteq> 0" by (simp add: or_eq_0_iff)
    then show ?thesis using ih call False by (auto simp: x)
  qed
qed

lemma visit_neighbours_flag:
  assumes "visit_neighbours (mark_connected d cfg img) row col level e = Return (e8, n)"
  shows "n = 0 \<longleftrightarrow> all_neighbours_stop d cfg img row col level e"
  using neighbour_loop_flag [OF assms [unfolded visit_neighbours_def]]
  by (simp add: all_neighbours_stop_def)

text \<open>
  C2, as amended.  A call of \<^verbatim>\<open>mark_connected\<close> that reaches an unvisited pixel of
  nonzero strength \<open>v\<close> returns 1, and the pixel ends at 255 by the re-mark exactly when
  at least one of the eight neighbour recursions returned 1 (not all of them stopped at
  once), \<open>level > 0\<close>, \<open>thinFactor > 0\<close> and \<open>level mod thinFactor \<noteq> 0\<close>; otherwise it
  keeps its first mark (1 when \<open>v > low_thresh\<close>, else 255).  With \<open>thinFactor = 0\<close> the
  pixel always keeps its first mark.
\<close>

theorem mark_connected_demotion:
  assumes "getitem edges row col = Return 0"
    and "getitem img row col = Return v" and "v \<noteq> 0"
    and "mark_connected (Suc depth) cfg img row col level edges = Return (edges', r)"
  shows "r = 1
     \<and> cells edges' (own_cell edges row col) =
         (if \<not> all_neighbours_stop depth cfg img row col level (first_mark cfg edges row col v)
             \<and> level > 0 \<and> thinFactor cfg > 0 \<and> level mod thinFactor cfg \<noteq> 0
          then 255 else if v > low_thresh cfg then 1 else 255)
     \<and> (thinFactor cfg = 0 \<longrightarrow>
          cells edges' (own_cell edges row col) = (if v > low_thresh cfg then 1 else 255))"
proof -
  let ?e1 = "first_mark cfg edges row col v"
  let ?own = "own_cell edges row col"
  let ?demote = "\<lambda>n. n \<noteq> 0 \<and> level > 0 \<and> thinFactor cfg > 0 \<and> level mod thinFactor cfg \<noteq> 0"
  from assms(4) obtain e8 n where
    vis: "visit_neighbours (mark_connected depth cfg img) row col level ?e1 = Return (e8, n)"
    and fin: "(if ?demote n then rbind (setitem e8 row col 255) (\<lambda>e. Return (e, 1)) else Return (e8, 1))
        = Return (edges', r)"
    unfolding mark_connected_Suc_unvisited [OF assms(1-3)]
    by (auto simp: rbind_Return_iff)
  let ?frame = "\<lambda>a b. nrows b = nrows a \<and> ncols b = ncols a \<and> (\<forall>p. cells a p \<noteq> 0 \<longrightarrow> cells b p = cells a p)"
  have "?frame ?e1 e8"
    using vis
  proof (rule visit_neighbours_invariant [where I = "\<lambda>_. ?frame ?e1"], goal_cases)
    case 1
    then show ?case by simp
  next
    case (2 ys dr dc t t' r)
    from mark_connected_frame [OF 2(3)] 2(2) show ?case by auto
  qed
  then have own: "own_cell e8 row col = ?own"
    and keep: "cells e8 ?own = (if v > low_thresh cfg then 1 else 255)"
    and shape: "nrows e8 = nrows edges" "ncols e8 = ncols edges"
    by (auto simp: own_cell_def first_mark_def)
  have ok: "index_ok (nrows e8) row" "index_ok (ncols e8) col"
    using assms(1) shape by (simp_all add: getitem_Return_iff)
  have flag: "n = 0 \<longleftrightarrow> all_neighbours_stop depth cfg img row col level ?e1"
    using vis by (rule visit_neighbours_flag)
  have "r = 1" and "edges' = (if ?demote n then e8\<lparr>cells := (cells e8)(?own := 255)\<rparr> else e8)"
    using fin ok own by (auto simp: rbind_Return_iff setitem_Return_iff split: if_splits)
  then show ?thesis
    using keep flag by auto
qed

theorem mark_connected_demotion_witness:
  "getitem (zeros_like chain_image) 1 2 = Return 0 \<and> getitem chain_image 1 2 = Return 6
   \<and> traced (mark_connected (Suc 2) thin_config chain_image 1 2 1 (zeros_like chain_image))
       = Some ([[0, 0, 0, 0, 0], [0, 1, 255, 1, 0], [0, 0, 0, 0, 0]], 1)"
proof -
  have "getitem (zeros_like chain_image) 1 2 = Return 0" "getitem chain_image 1 2 = Return 6"
    "traced (mark_connected (Suc 2) thin_config chain_image 1 2 1 (zeros_like chain_image))
       = Some ([[0, 0, 0, 0, 0], [0, 1, 255, 1, 0], [0, 0, 0, 0, 0]], 1)"
    by code_simp+
  then show ?thesis
    using mark_connected_demotion [of "zeros_like chain_image" 1 2 chain_image 6 2 thin_config 1]
    by simp
qed

text \<open>
  C2, as stated, fails: a pixel at level 1 whose eight neighbour recursions all return 0
  (a chain end), with \<open>thinFactor = 2\<close>, keeps the mark 1 and is not re-marked 255.
\<close>

theorem leaf_pixel_not_demoted:
  "traced (mark_connected 2 thin_config dot_image 1 1 1 (zeros_like dot_image))
       = Some ([[0, 0, 0], [0, 1, 0], [0, 0, 0]], 1)
   \<and> all_neighbours_stop 1 thin_config dot_image 1 1 1 (first_mark thin_config (zeros_like dot_image) 1 1 5)
   \<and> getitem dot_image 1 1 = Return 5 \<and> thinFactor thin_config = 2"
proof -
  let ?e1 = "first_mark thin_config (zeros_like dot_image) 1 1 5"
  have "map_option snd (returned (visit_neighbours (mark_connected 1 thin_config dot_image) 1 1 1 ?e1))
      = Some 0"
    by code_simp
  then obtain e8 where
    "visit_neighbours (mark_connected 1 thin_config dot_image) 1 1 1 ?e1 = Return (e8, 0)"
    by (auto simp: returned_def split: result.splits)
  then have "all_neighbours_stop 1 thin_config dot_image 1 1 1 ?e1"
    using visit_neighbours_flag by blast
  moreover have "traced (mark_connected 2 thin_config dot_image 1 1 1 (zeros_like dot_image))
       = Some ([[0, 0, 0], [0, 1, 0], [0, 0, 0]], 1)"
    "getitem dot_image 1 1 = Return 5" "thinFactor thin_config = 2"
    by code_simp+
  ultimately show ?thesis by simp
qed

text \<open>
  C3.  With hysteresis off, \<^verbatim>\<open>low_thresh = 0\<close> and \<^verbatim>\<open>high_thresh = 2\<close>, the pixel of
  strength 1 next to the seed of strength 5 is kept as an edge, since \<^verbatim>\<open>mark_connected\<close>
  still compares with the configured \<^verbatim>\<open>low_thresh\<close>; with both thresholds equal to 2 it
  is not.
\<close>

theorem hysteresis_off_differs:
  "returned_rows (threshold_edges 12 hysteresis_off_config weak_image)
     = Some [[0, 0, 0, 0], [0, 1, 1, 0], [0, 0, 0, 0]]
   \<and> returned_rows (threshold_edges 12 (hysteresis_off_config\<lparr>low_thresh := 2\<rparr>) weak_image)
     = Some [[0, 0, 0, 0], [0, 1, 0, 0], [0, 0, 0, 0]]"
  by code_simp

text \<open>
  C1.  On a 3 by 3 impulse with \<open>s = 1/2\<close> the first pass of \<^verbatim>\<open>getISEF\<close> leaves row
  \<open>rows - 2\<close> (and the last column) of its output at 0, so the middle row of the result is
  0, where the two-pass filter of the specification gives 1/2, 1, 1/2.
\<close>

theorem getISEF_loses_row:
  "returned_rows (getISEF hysteresis_off_config impulse_image)
     = Some [[1 / 4, 1 / 2, 1 / 4], [0, 0, 0], [1 / 4, 1 / 2, 1 / 4]]
   \<and> spec_isef (1 / 2) (to_rows impulse_image)
     = [[1 / 4, 1 / 2, 1 / 4], [1 / 2, 1, 1 / 2], [1 / 4, 1 / 2, 1 / 4]]"
  by code_simp

section \<open>The traversal inside the margin\<close>

lemma kept_refl [simp]: "kept e e"
  by (simp add: kept_def)

lemma kept_trans: "kept a b \<Longrightarrow> kept b c \<Longrightarrow> kept a c"
  by (auto simp: kept_def)

lemma mark_connected_kept:
  "mark_connected d cfg img row col level e = Return (e', r) \<Longrightarrow> kept e e'"
  using mark_connected_frame [of d cfg img row col level e e' r] by (simp add: kept_def)

lemma fresh_ok_refl [simp]: "fresh_ok cfg img A e e"
  by (simp add: fresh_ok_def)

lemma settled_kept:
  assumes "settled cfg img A e p" "cells e p \<noteq> 0" "kept e e'"
  shows "settled cfg img A e' p"
proof -
  have "cells e' q = cells e q" if "cells e q \<noteq> 0" for q
    using that assms(3) unfolding kept_def by blast
  then show ?thesis
    using assms(1,2) unfolding settled_def by metis
qed

lemma fresh_ok_trans:
  assumes "kept b c" "fresh_ok cfg img A a b" "fresh_ok cfg img A b c"
  shows "fresh_ok cfg img A a c"
  unfolding fresh_ok_def
proof (intro allI impI)
  fix p assume p: "cells a p = 0 \<and> cells c p \<noteq> 0"
  show "settled cfg img A c p"
  proof (cases "cells b p = 0")
    case True
    then show ?thesis using p assms(3) unfolding fresh_ok_def by blast
  next
    case False
    then have "settled cfg img A b p"
      using p assms(2) unfolding fresh_ok_def by blast
    then show ?thesis using False assms(1) by (rule settled_kept)
  qed
qed

lemma interior_of_strength:
  assumes "outline cfg \<ge> 1" "border_zero cfg img" "r < nrows img" "c < ncols img"
    "cells img (r, c) \<noteq> 0"
  shows "1 \<le> r \<and> r + 1 < nrows img \<and> 1 \<le> c \<and> c + 1 < ncols img"
proof -
  have "\<not> isEdge cfg (int r) (int c) (int (nrows img)) (int (ncols img))"
    using assms by (auto simp: border_zero_def)
  then show ?thesis using assms(1) by (auto simp: isEdge_def)
qed

lemma neighbour_cell:
  assumes "(dr, dc) \<in> set neighbours" "1 \<le> r" "r + 1 < R" "1 \<le> c" "c + 1 < C"
  obtains r' c' where "int r + dr = int r'" "int c + dc = int c'" "r' < R" "c' < C"
    "adjacent (r, c) (r', c')"
proof -
  have d: "dr \<in> {- 1, 0, 1}" "dc \<in> {- 1, 0, 1}"
    using assms(1) by (auto simp: neighbours_def)
  let ?r = "nat (int r + dr)" and ?c = "nat (int c + dc)"
  have "int r + dr = int ?r" "int c + dc = int ?c" "?r < R" "?c < C"
    using d assms(2-5) by auto
  moreover from this have "adjacent (r, c) (?r, ?c)"
    using assms(1) by (simp add: adjacent_def)
  ultimately show ?thesis using that by blast
qed

lemma adjacent_offset:
  assumes "adjacent (r, c) q"
  obtains dr dc where "(dr, dc) \<in> set neighbours" "int (fst q) = int r + dr" "int (snd q) = int c + dc"
  using assms by (auto simp: adjacent_def)

lemma visit_neighbours_total:
  assumes init: "I [] e"
    and step: "\<And>ys dr dc t. (dr, dc) \<in> set neighbours \<Longrightarrow> I ys t
        \<Longrightarrow> \<exists>t' r. visit (row + dr) (col + dc) (level + 1) t = Return (t', r) \<and> I (ys @ [(dr, dc)]) t'"
  shows "\<exists>e' n. visit_neighbours visit row col level e = Return (e', n) \<and> I neighbours e'"
proof -
  have "\<exists>s'. for_loop neighbours (\<lambda>(dr, dc) (edges, notChainEnd).
       rbind (visit (row + dr) (col + dc) (level + 1) edges) (\<lambda>(edges, r).
       Return (edges, notChainEnd OR r))) (e, 0) = Return s' \<and> (\<lambda>ys (t, acc). I ys t) neighbours s'"
  proof (rule for_loop_total, goal_cases)
    case 1
    then show ?case using init by simp
  next
    case (2 ys x t)
    obtain dr dc where x: "x = (dr, dc)" by (cases x)
    obtain u acc where t: "t = (u, acc)" by (cases t)
    from 2 x t step [of dr dc ys u] obtain t' r where
      "visit (row + dr) (col + dc) (level + 1) u = Return (t', r)" "I (ys @ [(dr, dc)]) t'"
      by auto
    then show ?case by (simp add: x t)
  qed
  then show ?thesis by (auto simp: visit_neighbours_def)
qed

lemma settled_mono:
  assumes "settled cfg img A e p" "\<And>q. cells e q \<noteq> 0 \<Longrightarrow> cells e' q \<noteq> 0" "cells e' p = cells e p"
  shows "settled cfg img A e' p"
  using assms unfolding settled_def by metis

lemma own_cell_nat [simp]:
  "own_cell a (int r) (int c) = (r, c)"
  by (simp add: own_cell_def norm_index_def)

lemma card_unvisited_less:
  assumes "finite A" "p0 \<in> A" "cells e p0 = 0" "cells e1 p0 \<noteq> 0"
    "\<And>p. cells e1 p = 0 \<Longrightarrow> cells e p = 0"
    "\<And>p. cells e1 p \<noteq> 0 \<Longrightarrow> cells t p \<noteq> 0"
  shows "card {p \<in> A. cells t p = 0} < card {p \<in> A. cells e p = 0}"
proof (rule psubset_card_mono)
  show "finite {p \<in> A. cells e p = 0}" using assms(1) by simp
  have "p0 \<in> {p \<in> A. cells e p = 0}" "p0 \<notin> {p \<in> A. cells t p = 0}"
    using assms(2,3,4,6) by auto
  moreover have "{p \<in> A. cells t p = 0} \<subseteq> {p \<in> A. cells e p = 0}"
    using assms(5,6) by blast
  ultimately show "{p \<in> A. cells t p = 0} \<subset> {p \<in> A. cells e p = 0}" by blast
qed

lemma mark_connected_safe:
  assumes safe: "outline cfg \<ge> 1" "border_zero cfg img"
    and A: "finite A" "closed_under img A"
  shows "nrows e = nrows img \<Longrightarrow> ncols e = ncols img \<Longrightarrow> r < nrows img \<Longrightarrow> c < ncols img
     \<Longrightarrow> (r, c) \<in> A \<or> cells img (r, c) = 0 \<Longrightarrow> card {p \<in> A. cells e p = 0} < d
     \<Longrightarrow> \<exists>e' flag. mark_connected d cfg img (int r) (int c) level e = Return (e', flag)
           \<and> fresh_ok cfg img A e e' \<and> (cells e' (r, c) \<noteq> 0 \<or> cells img (r, c) = 0)"
proof (induction d arbitrary: r c level e)
  case 0
  then show ?case by simp
next
  case (Suc d)
  let ?p0 = "(r, c)"
  have get_e: "getitem e (int r) (int c) = Return (cells e ?p0)"
    using Suc.prems by simp
  have get_img: "getitem img (int r) (int c) = Return (cells img ?p0)"
    using Suc.prems by simp
  show ?case
  proof (cases "cells e ?p0 \<noteq> 0 \<or> cells img ?p0 = 0")
    case True
    then have "mark_connected (Suc d) cfg img (int r) (int c) level e = Return (e, 0)"
      using get_e get_img by auto
    then show ?thesis using True by auto
  next
    case False
    then have unv: "cells e ?p0 = 0" and str: "cells img ?p0 \<noteq> 0" by auto
    then have inA: "?p0 \<in> A" using Suc.prems(5) by simp
    let ?v = "cells img ?p0"
    let ?m = "if ?v > low_thresh cfg then 1 else 255 :: real"
    let ?e1 = "first_mark cfg e (int r) (int c) ?v"
    have e1: "?e1 = e\<lparr>cells := (cells e)(?p0 := ?m)\<rparr>"
      by (simp add: first_mark_def)
    have e1_p0: "cells ?e1 ?p0 = ?m" and e1_other: "\<And>p. p \<noteq> ?p0 \<Longrightarrow> cells ?e1 p = cells e p"
      and e1_shape: "nrows ?e1 = nrows img" "ncols ?e1 = ncols img"
      using Suc.prems(1,2) by (simp_all add: e1)
    have interior: "1 \<le> r" "r + 1 < nrows img" "1 \<le> c" "c + 1 < ncols img"
      using interior_of_strength [OF safe Suc.prems(3,4) str] by auto
    let ?I = "\<lambda>ys t. kept ?e1 t \<and> fresh_ok cfg img A ?e1 t
       \<and> (\<forall>(dr, dc) \<in> set ys. \<forall>q. int (fst q) = int r + dr \<and> int (snd q) = int c + dc
            \<longrightarrow> cells t q \<noteq> 0 \<or> cells img q = 0)"
    have "\<exists>e8 n. visit_neighbours (mark_connected d cfg img) (int r) (int c) level ?e1 = Return (e8, n)
        \<and> ?I neighbours e8"
    proof (rule visit_neighbours_total [where I = ?I], goal_cases)
      case 1
      then show ?case by simp
    next
      case (2 ys dr dc t)
      then have kt: "kept ?e1 t" and ft: "fresh_ok cfg img A ?e1 t"
        and seen: "\<forall>(dr, dc) \<in> set ys. \<forall>q. int (fst q) = int r + dr \<and> int (snd q) = int c + dc
            \<longrightarrow> cells t q \<noteq> 0 \<or> cells img q = 0"
        by auto
      from neighbour_cell [OF 2(1) interior] obtain r' c' where
        q: "int r + dr = int r'" "int c + dc = int c'" "r' < nrows img" "c' < ncols img"
          "adjacent (r, c) (r', c')"
        by blast
      have shape_t: "nrows t = nrows img" "ncols t = ncols img"
        using kt e1_shape by (simp_all add: kept_def)
      have qA: "(r', c') \<in> A \<or> cells img (r', c') = 0"
        using A(2) inA q(3,4,5) unfolding closed_under_def in_grid_def by force
      have "card {p \<in> A. cells t p = 0} < card {p \<in> A. cells e p = 0}"
      proof (rule card_unvisited_less [OF A(1) inA unv, of ?e1])
        show "cells ?e1 ?p0 \<noteq> 0" by (simp add: e1_p0)
        show "\<And>p. cells ?e1 p = 0 \<Longrightarrow> cells e p = 0"
          using e1_other e1_p0 by (metis one_neq_zero zero_neq_numeral)
        show "\<And>p. cells ?e1 p \<noteq> 0 \<Longrightarrow> cells t p \<noteq> 0"
          using kt unfolding kept_def by metis
      qed
      then have fuel: "card {p \<in> A. cells t p = 0} < d"
        using Suc.prems(6) by simp
      from Suc.IH [OF shape_t q(3,4) qA fuel, of "level + 1"] obtain t' flag where
        call: "mark_connected d cfg img (int r') (int c') (level + 1) t = Return (t', flag)"
        and ft': "fresh_ok cfg img A t t'"
        and own': "cells t' (r', c') \<noteq> 0 \<or> cells img (r', c') = 0"
        by blast
      have kt': "kept t t'" using call by (rule mark_connected_kept)
      have "kept ?e1 t'" using kt kt' by (rule kept_trans)
      moreover have "fresh_ok cfg img A ?e1 t'" using kt' ft ft' by (rule fresh_ok_trans)
      moreover have "cells t' q \<noteq> 0"
        if mem: "(dr', dc') \<in> set (ys @ [(dr, dc)])"
          and eq: "int (fst q) = int r + dr'" "int (snd q) = int c + dc'"
          and nz: "cells img q \<noteq> 0" for dr' dc' q
      proof (cases "(dr', dc') \<in> set ys")
        case True
        then have "cells t q \<noteq> 0" using seen eq nz by blast
        then show ?thesis using kt' unfolding kept_def by metis
      next
        case False
        then have "dr' = dr" "dc' = dc" using mem by auto
        then have "q = (r', c')" using eq q(1,2) by (cases q) simp
        then show ?thesis using own' nz by simp
      qed
      then have "\<forall>(dr', dc') \<in> set (ys @ [(dr, dc)]). \<forall>q. int (fst q) = int r + dr' \<and> int (snd q) = int c + dc'
            \<longrightarrow> cells t' q \<noteq> 0 \<or> cells img q = 0"
        by blast
      ultimately show ?case using call q(1,2) by auto
    qed
    then obtain e8 n where
      vis: "visit_neighbours (mark_connected d cfg img) (int r) (int c) level ?e1 = Return (e8, n)"
      and k8: "kept ?e1 e8" and f8: "fresh_ok cfg img A ?e1 e8"
      and nb: "\<forall>(dr, dc) \<in> set neighbours. \<forall>q. int (fst q) = int r + dr \<and> int (snd q) = int c + dc
            \<longrightarrow> cells e8 q \<noteq> 0 \<or> cells img q = 0"
      by blast
    have shape8: "nrows e8 = nrows img" "ncols e8 = ncols img"
      using k8 e1_shape by (simp_all add: kept_def)
    have p0_8: "cells e8 ?p0 = ?m"
      using k8 e1_p0 unfolding kept_def by (metis one_neq_zero zero_neq_numeral)
    let ?demote = "n \<noteq> 0 \<and> level > 0 \<and> thinFactor cfg > 0 \<and> level mod thinFactor cfg \<noteq> 0"
    let ?e' = "if ?demote then e8\<lparr>cells := (cells e8)(?p0 := 255)\<rparr> else e8"
    have run: "mark_connected (Suc d) cfg img (int r) (int c) level e = Return (?e', 1)"
      using vis shape8 Suc.prems(3,4)
      unfolding mark_connected_Suc_unvisited [OF get_e [unfolded unv] get_img str]
      by simp
    have e'_nz: "cells ?e' q \<noteq> 0" if "cells e8 q \<noteq> 0" for q
      using that by (cases "q = ?p0") auto
    have e'_other: "cells ?e' q = cells e8 q" if "q \<noteq> ?p0" for q
      using that by auto
    have e'_p0: "cells ?e' ?p0 \<noteq> 0"
      using p0_8 by auto
    have "fresh_ok cfg img A e ?e'"
      unfolding fresh_ok_def
    proof (intro allI impI)
      fix p assume p: "cells e p = 0 \<and> cells ?e' p \<noteq> 0"
      show "settled cfg img A ?e' p"
      proof (cases "p = ?p0")
        case True
        have "cells ?e' q \<noteq> 0" if "adjacent ?p0 q" "cells img q \<noteq> 0" for q
        proof -
          from adjacent_offset [OF that(1)] obtain dr dc where
            "(dr, dc) \<in> set neighbours" "int (fst q) = int r + dr" "int (snd q) = int c + dc"
            by blast
          then have "cells e8 q \<noteq> 0" using nb that(2) by blast
          then show ?thesis by (rule e'_nz)
        qed
        moreover have "cells ?e' ?p0 = ?m" if "thinFactor cfg \<le> 0"
          using that p0_8 by simp
        ultimately show ?thesis
          using True inA str Suc.prems(3,4) unfolding settled_def in_grid_def by auto
      next
        case False
        then have "cells ?e1 p = 0" "cells e8 p \<noteq> 0"
          using p e1_other e'_other by auto
        then have "settled cfg img A e8 p"
          using f8 unfolding fresh_ok_def by blast
        then show ?thesis
          using e'_nz e'_other [OF False] by (rule settled_mono)
      qed
    qed
    then show ?thesis using run e'_p0 by blast
  qed
qed

section \<open>The tracer on a grid with an empty margin\<close>

lemma all_settled_step:
  assumes "all_settled cfg img A t" "kept t t'" "fresh_ok cfg img A t t'"
  shows "all_settled cfg img A t'"
  unfolding all_settled_def
proof (intro allI impI)
  fix p assume p: "cells t' p \<noteq> 0"
  show "settled cfg img A t' p"
  proof (cases "cells t p = 0")
    case True
    then show ?thesis using p assms(3) unfolding fresh_ok_def by blast
  next
    case False
    then have "settled cfg img A t p" using assms(1) unfolding all_settled_def by blast
    then show ?thesis using False assms(2) by (rule settled_kept)
  qed
qed

lemma card_unvisited_le:
  "finite A \<Longrightarrow> card {p \<in> A. cells e p = 0} \<le> card A"
  by (rule card_mono) auto

lemma trace_seeds_safe:
  assumes safe: "outline cfg \<ge> 1" "border_zero cfg img"
    and A: "finite A" "closed_under img A"
    and seeds: "\<And>p. is_seed cfg img p \<Longrightarrow> p \<in> A"
    and fuel: "card A < d"
  shows "\<exists>e. trace_seeds d cfg img (int (nrows img)) (int (ncols img)) (zeros_like img) = Return e
     \<and> nrows e = nrows img \<and> ncols e = ncols img \<and> all_settled cfg img A e
     \<and> (\<forall>p. is_seed cfg img p \<longrightarrow> cells e p \<noteq> 0)"
proof -
  let ?R = "nrows img" and ?C = "ncols img"
  let ?J = "\<lambda>t. nrows t = ?R \<and> ncols t = ?C \<and> all_settled cfg img A t"
  let ?body = "\<lambda>row col edges.
         if isEdge cfg row col (int ?R) (int ?C) then Return edges
         else rbind (getitem img row col) (\<lambda>v.
           if v > high_thresh cfg
           then rbind (mark_connected d cfg img row col 0 edges) (\<lambda>(edges, r). Return edges)
           else Return edges)"
  have cell: "\<exists>t'. ?body (int k) (int j) t = Return t' \<and> ?J t' \<and> kept t t'
      \<and> (is_seed cfg img (k, j) \<longrightarrow> cells t' (k, j) \<noteq> 0)"
    if k: "k < ?R" and j: "j < ?C" and J: "?J t" for k j t
  proof (cases "is_seed cfg img (k, j)")
    case False
    have "?body (int k) (int j) t = Return t \<or>
      (\<not> isEdge cfg (int k) (int j) (int ?R) (int ?C) \<and> cells img (k, j) > high_thresh cfg)"
      using k j by auto
    moreover have "cells img (k, j) = 0"
      if "\<not> isEdge cfg (int k) (int j) (int ?R) (int ?C)" "cells img (k, j) > high_thresh cfg"
      using that False k j by (auto simp: is_seed_def in_grid_def)
    moreover have "mark_connected d cfg img (int k) (int j) 0 t = Return (t, 0)"
      if "cells img (k, j) = 0"
    proof -
      from fuel obtain d' where "d = Suc d'" by (cases d) auto
      then show ?thesis using that k j J by simp
    qed
    ultimately have "?body (int k) (int j) t = Return t"
      using k j by auto
    then show ?thesis using J False by simp
  next
    case True
    then have edge: "\<not> isEdge cfg (int k) (int j) (int ?R) (int ?C)"
      and high: "cells img (k, j) > high_thresh cfg"
      by (simp_all add: is_seed_def)
    have "card {p \<in> A. cells t p = 0} < d"
      using card_unvisited_le [OF A(1), of t] fuel by simp
    from mark_connected_safe [OF safe A _ _ k j _ this, of 0] J seeds [OF True]
    obtain t' flag where
      call: "mark_connected d cfg img (int k) (int j) 0 t = Return (t', flag)"
      and fresh: "fresh_ok cfg img A t t'"
      and own: "cells t' (k, j) \<noteq> 0 \<or> cells img (k, j) = 0"
      by blast
    have kt: "kept t t'" using call by (rule mark_connected_kept)
    have "all_settled cfg img A t'"
      using J kt fresh by (blast intro: all_settled_step)
    moreover have "?body (int k) (int j) t = Return t'"
      using edge high call k j by simp
    moreover have "cells t' (k, j) \<noteq> 0"
      using own True by (simp add: is_seed_def)
    ultimately show ?thesis using kt J by (auto simp: kept_def)
  qed
  let ?done = "\<lambda>k j t. \<forall>p. is_seed cfg img p \<and> (fst p < k \<or> fst p = k \<and> snd p < j) \<longrightarrow> cells t p \<noteq> 0"
  have row: "\<exists>t'. for_loop (py_range 0 (int ?C)) (\<lambda>col. ?body (int k) col) t = Return t'
      \<and> ?J t' \<and> ?done (Suc k) 0 t'"
    if k: "k < ?R" and J: "?J t" and dn: "?done k 0 t" for k t
  proof -
    have "\<exists>t'. for_loop (py_range 0 (int ?C)) (\<lambda>col. ?body (int k) col) t = Return t'
      \<and> ?J t' \<and> ?done k ?C t'"
    proof (rule for_upto_total [where P = "\<lambda>j t. ?J t \<and> ?done k j t"], goal_cases)
      case 1
      then show ?case using J dn by simp
    next
      case (2 j u)
      from cell [OF k 2(1), of u] 2(2) obtain u' where
        b: "?body (int k) (int j) u = Return u'" and J': "?J u'" and ku: "kept u u'"
        and s: "is_seed cfg img (k, j) \<longrightarrow> cells u' (k, j) \<noteq> 0"
        by blast
      have "cells u' p \<noteq> 0"
        if "is_seed cfg img p" "fst p < k \<or> fst p = k \<and> snd p < Suc j" for p
      proof (cases "fst p = k \<and> snd p = j")
        case True
        then have "p = (k, j)" by (cases p) simp
        then show ?thesis using s that(1) by simp
      next
        case False
        obtain a b where "p = (a, b)" by (cases p)
        then have "cells u p \<noteq> 0" using False that 2(2) by (auto simp: less_Suc_eq)
        then show ?thesis using ku unfolding kept_def by metis
      qed
      then show ?case using b J' by blast
    qed
    moreover have "?done (Suc k) 0 t'" if "?done k ?C t'" for t'
    proof (intro allI impI)
      fix p assume p: "is_seed cfg img p \<and> (fst p < Suc k \<or> fst p = Suc k \<and> snd p < 0)"
      then have "snd p < ?C" by (simp add: is_seed_def in_grid_def)
      moreover obtain a b where "p = (a, b)" by (cases p)
      ultimately show "cells t' p \<noteq> 0" using p that by (auto simp: less_Suc_eq)
    qed
    ultimately show ?thesis by blast
  qed
  have "\<exists>e. for_loop (py_range 0 (int ?R)) (\<lambda>row.
       for_loop (py_range 0 (int ?C)) (\<lambda>col. ?body row col)) (zeros_like img) = Return e
      \<and> ?J e \<and> ?done ?R 0 e"
  proof (rule for_upto_total [where P = "\<lambda>k t. ?J t \<and> ?done k 0 t"], goal_cases)
    case 1
    then show ?case by (simp add: zeros_like_def all_settled_def)
  next
    case (2 k t)
    then show ?case using row by blast
  qed
  then obtain e where run: "trace_seeds d cfg img (int ?R) (int ?C) (zeros_like img) = Return e"
    and J: "?J e" and dn: "?done ?R 0 e"
    unfolding trace_seeds_def by blast
  have "cells e p \<noteq> 0" if "is_seed cfg img p" for p
  proof -
    obtain a b where "p = (a, b)" by (cases p)
    then show ?thesis using that dn by (auto simp: is_seed_def in_grid_def)
  qed
  then show ?thesis using run J by blast
qed

lemma grid_map_simps [simp]:
  "nrows (grid_map m n F a) = nrows a" "ncols (grid_map m n F a) = ncols a"
  "cells (grid_map m n F a) (r, c) = (if r < m \<and> c < n then F r c (cells a (r, c)) else cells a (r, c))"
  by (simp_all add: grid_map_def)

lemma clear_provisional_eq:
  "clear_provisional (int (nrows e)) (int (ncols e)) e
     = Return (grid_map (nrows e) (ncols e) unprovisional e)"
  unfolding clear_provisional_def
proof (rule grid_loop_total, goal_cases)
  case (1 r c t)
  have "t\<lparr>cells := (cells t)((r, c) := cells t (r, c))\<rparr> = t" by simp
  then show ?case using 1 by (simp add: unprovisional_def)
qed

lemma normalize_edges_eq:
  "normalize_edges e = Return (grid_map (nrows e) (ncols e) binarize e)"
  unfolding normalize_edges_def Let_def
  by (rule grid_loop_total) (simp add: binarize_def)

lemma threshold_edges_safe:
  assumes safe: "outline cfg \<ge> 1" "border_zero cfg img"
    and A: "finite A" "closed_under img A"
    and seeds: "\<And>p. is_seed cfg img p \<Longrightarrow> p \<in> A"
    and fuel: "card A < d"
  shows "\<exists>e. threshold_edges d cfg img = Return (grid_map (nrows img) (ncols img) unprovisional e)
     \<and> nrows e = nrows img \<and> ncols e = ncols img \<and> all_settled cfg img A e
     \<and> (\<forall>p. is_seed cfg img p \<longrightarrow> cells e p \<noteq> 0)"
proof -
  from trace_seeds_safe [OF assms] obtain e where
    run: "trace_seeds d cfg img (int (nrows img)) (int (ncols img)) (zeros_like img) = Return e"
    and e: "nrows e = nrows img" "ncols e = ncols img" "all_settled cfg img A e"
      "\<forall>p. is_seed cfg img p \<longrightarrow> cells e p \<noteq> 0"
    by blast
  have "threshold_edges d cfg img = Return (grid_map (nrows img) (ncols img) unprovisional e)"
    using run clear_provisional_eq [of e] by (simp add: threshold_edges_def Let_def e(1,2))
  then show ?thesis using e by blast
qed

lemma in_grid_subset: "{p. in_grid img p} = {..<nrows img} \<times> {..<ncols img}"
  by (auto simp: in_grid_def)

lemma finite_in_grid: "finite {p. in_grid img p}"
  by (simp add: in_grid_subset)

lemma card_in_grid: "card {p. in_grid img p} = nrows img * ncols img"
  by (simp add: in_grid_subset card_cartesian_product)

lemma finite_candidates: "finite (candidates img)"
  by (rule finite_subset [OF _ finite_in_grid]) (auto simp: candidates_def)

lemma card_candidates: "card (candidates img) \<le> nrows img * ncols img"
  unfolding card_in_grid [symmetric]
  by (rule card_mono [OF finite_in_grid]) (auto simp: candidates_def)

lemma closed_candidates: "closed_under img (candidates img)"
  by (auto simp: closed_under_def candidates_def)










lemma trace_edges_safe:
  assumes safe: "outline cfg \<ge> 1" "border_zero cfg img"
    and A: "finite A" "closed_under img A"
    and seeds: "\<And>p. is_seed cfg img p \<Longrightarrow> p \<in> A"
    and fuel: "card A < d"
  shows "\<exists>e. trace_edges d cfg img
       = Return (grid_map (nrows img) (ncols img) binarize (grid_map (nrows img) (ncols img) unprovisional e))
     \<and> nrows e = nrows img \<and> ncols e = ncols img \<and> all_settled cfg img A e
     \<and> (\<forall>p. is_seed cfg img p \<longrightarrow> cells e p \<noteq> 0)"
proof -
  from threshold_edges_safe [OF assms] obtain e where
    run: "threshold_edges d cfg img = Return (grid_map (nrows img) (ncols img) unprovisional e)"
    and e: "nrows e = nrows img" "ncols e = ncols img" "all_settled cfg img A e"
      "\<forall>p. is_seed cfg img p \<longrightarrow> cells e p \<noteq> 0"
    by blast
  let ?t = "grid_map (nrows img) (ncols img) unprovisional e"
  have "nrows ?t = nrows img" "ncols ?t = ncols img"
    using e(1,2) by simp_all
  then have "normalize_edges ?t = Return (grid_map (nrows img) (ncols img) binarize ?t)"
    using normalize_edges_eq [of ?t] by simp
  then show ?thesis using run e by (auto simp: trace_edges_def)
qed

lemma count_edges_traced:
  assumes "nrows e = nrows img" "ncols e = ncols img" "all_settled cfg img A e" "thinFactor cfg \<le> 0"
  shows "count_edges (grid_map (nrows img) (ncols img) binarize (grid_map (nrows img) (ncols img) unprovisional e))
     = (\<Sum>r < nrows img. \<Sum>c < ncols img.
          if cells e (r, c) \<noteq> 0 \<and> cells img (r, c) > low_thresh cfg then 1 else 0)"
proof -
  have v: "cells e p = (if cells img p > low_thresh cfg then 1 else 255)" if "cells e p \<noteq> 0" for p
    using that assms(3,4) unfolding all_settled_def settled_def by blast
  have iff: "(binarize r c (unprovisional r c (cells e (r, c))) = 255)
      \<longleftrightarrow> (cells e (r, c) \<noteq> 0 \<and> cells img (r, c) > low_thresh cfg)" for r c
    using v [of "(r, c)"] by (auto simp: binarize_def unprovisional_def split: if_splits)
  show ?thesis
    unfolding count_edges_def
    by (simp add: assms(1,2)) (intro sum.cong refl, simp add: iff)
qed

text \<open>
  C7, as amended.  On a candidate strength grid whose margin is 0, with \<open>outline \<ge> 1\<close>
  and thinning off (\<open>thinFactor \<le> 0\<close>), both traces return and raising \<^verbatim>\<open>high_thresh\<close>
  does not increase the number of pixels of value 255 in the normalized trace.
\<close>

theorem raising_high_thresh_monotone:
  assumes "outline cfg \<ge> 1" "border_zero cfg img" "thinFactor cfg \<le> 0"
    and "high_thresh cfg \<le> high2" and "nrows img * ncols img < d"
  shows "\<exists>out1 out2. trace_edges d cfg img = Return out1
     \<and> trace_edges d (cfg\<lparr>high_thresh := high2\<rparr>) img = Return out2
     \<and> count_edges out2 \<le> count_edges out1"
proof -
  let ?cfg2 = "cfg\<lparr>high_thresh := high2\<rparr>"
  let ?R = "nrows img" and ?C = "ncols img"
  have fuel1: "card (candidates img) < d"
    using card_candidates [of img] assms(5) by simp
  from trace_edges_safe [OF assms(1,2) finite_candidates closed_candidates _ fuel1]
  obtain e1 where
    run1: "trace_edges d cfg img = Return (grid_map ?R ?C binarize (grid_map ?R ?C unprovisional e1))"
    and e1: "nrows e1 = ?R" "ncols e1 = ?C" "all_settled cfg img (candidates img) e1"
      "\<forall>p. is_seed cfg img p \<longrightarrow> cells e1 p \<noteq> 0"
    by (auto simp: is_seed_def candidates_def)
  let ?V = "{p. in_grid img p \<and> cells e1 p \<noteq> 0}"
  have finV: "finite ?V"
    by (rule finite_subset [OF _ finite_in_grid]) auto
  have "card ?V \<le> ?R * ?C"
    unfolding card_in_grid [symmetric] by (rule card_mono [OF finite_in_grid]) auto
  then have fuel2: "card ?V < d" using assms(5) by simp
  have closedV: "closed_under img ?V"
    unfolding closed_under_def
  proof (intro ballI allI impI)
    fix p q assume p: "p \<in> ?V" and q: "adjacent p q \<and> in_grid img q \<and> cells img q \<noteq> 0"
    from p e1(3) have "settled cfg img (candidates img) e1 p"
      unfolding all_settled_def by blast
    then have "cells e1 q \<noteq> 0" using q unfolding settled_def by blast
    then show "q \<in> ?V" using q by simp
  qed
  have safe2: "outline ?cfg2 \<ge> 1" "border_zero ?cfg2 img"
    using assms(1,2) by (simp_all add: border_zero_def isEdge_def)
  have seeds2: "p \<in> ?V" if "is_seed ?cfg2 img p" for p
  proof -
    have "is_seed cfg img p"
      using that assms(4) by (simp add: is_seed_def isEdge_def)
    then have "cells e1 p \<noteq> 0" "in_grid img p"
      using e1(4) by (blast, simp add: is_seed_def)
    then show ?thesis by simp
  qed
  from trace_edges_safe [OF safe2 finV closedV seeds2 fuel2]
  obtain e2 where
    run2: "trace_edges d ?cfg2 img = Return (grid_map ?R ?C binarize (grid_map ?R ?C unprovisional e2))"
    and e2: "nrows e2 = ?R" "ncols e2 = ?C" "all_settled ?cfg2 img ?V e2"
    by blast
  have sub: "cells e1 p \<noteq> 0" if "cells e2 p \<noteq> 0" for p
    using that e2(3) unfolding all_settled_def settled_def by blast
  have "count_edges (grid_map ?R ?C binarize (grid_map ?R ?C unprovisional e2))
      \<le> count_edges (grid_map ?R ?C binarize (grid_map ?R ?C unprovisional e1))"
    unfolding count_edges_traced [OF e1(1,2,3) assms(3)]
      count_edges_traced [OF e2, simplified, OF assms(3)]
    by (intro sum_mono) (use sub in auto)
  then show ?thesis using run1 run2 by blast
qed

theorem raising_high_thresh_monotone_witness:
  "outline hysteresis_off_config \<ge> 1 \<and> border_zero hysteresis_off_config weak_image
   \<and> thinFactor hysteresis_off_config \<le> 0 \<and> high_thresh hysteresis_off_config \<le> 6
   \<and> nrows weak_image * ncols weak_image < 13
   \<and> map_option count_edges (returned (trace_edges 13 hysteresis_off_config weak_image)) = Some 2
   \<and> map_option count_edges
       (returned (trace_edges 13 (hysteresis_off_config\<lparr>high_thresh := 6\<rparr>) weak_image)) = Some 0"
proof -
  have "border_zero hysteresis_off_config weak_image"
    by (simp add: border_zero_def hysteresis_off_config_def weak_image_def of_rows_def isEdge_def
      less_Suc_eq numeral_3_eq_3 eval_nat_numeral)
  moreover have "outline hysteresis_off_config \<ge> 1"
    "thinFactor hysteresis_off_config \<le> 0" "high_thresh hysteresis_off_config \<le> 6"
    "nrows weak_image * ncols weak_image < 13"
    "map_option count_edges (returned (trace_edges 13 hysteresis_off_config weak_image)) = Some 2"
    "map_option count_edges
       (returned (trace_edges 13 (hysteresis_off_config\<lparr>high_thresh := 6\<rparr>) weak_image)) = Some 0"
    by code_simp+
  ultimately show ?thesis
    using raising_high_thresh_monotone [of hysteresis_off_config weak_image 6 13]
    by simp
qed

text \<open>
  C7, as stated, fails with thinning on: with \<open>thinFactor = 2\<close> the chain 4, 6, 1 has two
  edge pixels for \<^verbatim>\<open>high_thresh = 3\<close> (the middle pixel is reached at level 1 and demoted)
  and three for \<^verbatim>\<open>high_thresh = 5\<close> (the middle pixel is the seed).
\<close>

theorem raising_high_thresh_adds_edge:
  "high_thresh thin_config \<le> 5
   \<and> map_option count_edges (returned (trace_edges 16 thin_config chain_image)) = Some 2
   \<and> map_option count_edges
       (returned (trace_edges 16 (thin_config\<lparr>high_thresh := 5\<rparr>) chain_image)) = Some 3"
  by code_simp

end
